theory Spec2Isabelle
  imports Main "HOL-Library.Word" "HOL-Library.Log_Nat"
begin

unbundle bit_operations_syntax

section \<open>The open-addressing hash map of \<open>include/containers/map.hpp\<close>\<close>

text \<open>
  The development embeds \<open>shared::map<k, v, InitialSize>\<close>. Machine integers keep the
  widths of the source on an LP64 platform: \<open>size_t\<close> is a \<open>64 word\<close>, \<open>uint32_t\<close>
  a \<open>32 word\<close>, the two-bit field \<open>state\<close> a \<open>2 word\<close>. The slot array is a list; an
  access outside it (or through the null pointer a moved-from map holds, which is modelled
  by the empty list) is undefined behaviour in C++ and the error \<open>OutOfBounds\<close> here.
  A loop that never returns has the value \<open>None\<close>.
\<close>

datatype error = OutOfBounds

type_synonym 'a result = "(error + 'a) option"

fun bind_res :: "'a result \<Rightarrow> ('a \<Rightarrow> 'b result) \<Rightarrow> 'b result" where
  "bind_res None f = None"
| "bind_res (Some (Inl e)) f = Some (Inl e)"
| "bind_res (Some (Inr x)) f = f x"

subsection \<open>Template parameters\<close>

text \<open>
  The key type \<open>k\<close> enters the code through its object representation (read by
  \<open>hash_fn\<close>), its value-initialised object \<open>k()\<close> and \<open>operator==\<close>; the value type
  through \<open>v()\<close>. Keys are compared with HOL equality, so the model covers key types whose
  bytes are a function of their value (fixed-width integers).
\<close>

record ('k, 'v) params =
  repr :: "'k \<Rightarrow> 8 word list"
  key_init :: "'k"
  value_init :: "'v"
  InitialSize :: "64 word"

subsection \<open>Hash function\<close>

definition hash_fn :: "8 word list \<Rightarrow> 64 word" where
  "hash_fn bytes = foldl (\<lambda>hash b. (push_bit 5 hash + hash) + ucast b) 0 bytes"

subsection \<open>Entries and the map object\<close>

record ('k, 'v) Entry =
  state :: "2 word"
  data :: "'k \<times> 'v"

definition Entry_init :: "('k, 'v) params \<Rightarrow> ('k, 'v) Entry" where
  "Entry_init P = \<lparr>state = 0, data = (key_init P, value_init P)\<rparr>"

definition insert_entry :: "'k \<Rightarrow> 'v \<Rightarrow> ('k, 'v) Entry \<Rightarrow> ('k, 'v) Entry" where
  "insert_entry key val e = e\<lparr>data := (key, val), state := 1\<rparr>"

record ('k, 'v) hash_map =
  entries :: "('k, 'v) Entry list"
  capacity :: "32 word"
  m_size :: "32 word"

definition new_entries :: "('k, 'v) params \<Rightarrow> 32 word \<Rightarrow> ('k, 'v) Entry list" where
  "new_entries P cap = replicate (unat cap) (Entry_init P)"

subsection \<open>Slot resolution\<close>

partial_function (option) find_slot_loop ::
  "('k, 'v) Entry list \<Rightarrow> 32 word \<Rightarrow> 'k \<Rightarrow> 64 word \<Rightarrow> 64 word \<Rightarrow> (error + 64 word) option" where
  "find_slot_loop es cap key index i =
     (if length es \<le> unat index then Some (Inl OutOfBounds)
      else if state (es ! unat index) \<noteq> 1 \<or> fst (data (es ! unat index)) = key
        then Some (Inr index)
      else find_slot_loop es cap key ((index + i) AND ucast (cap - 1)) (i + 1))"

declare find_slot_loop.simps [code]

definition find_slot :: "('k, 'v) params \<Rightarrow> ('k, 'v) hash_map \<Rightarrow> 'k \<Rightarrow> 64 word result" where
  "find_slot P m key =
     (let hash = hash_fn (repr P key);
          index = hash AND ucast (capacity m - 1)
      in find_slot_loop (entries m) (capacity m) key index 0)"

subsection \<open>The load-factor test\<close>

text \<open>
  \<open>static_cast<float>(m_size + 1) / capacity > max_load_factor\<close> is evaluated in IEEE
  binary32 (24 significant bits, round to nearest, ties to even). \<open>float_of_u32\<close> is the
  value of the conversion of a \<open>uint32_t\<close>, which is a natural number: a number below
  \<open>2 ^ 24\<close> is kept, a longer one loses its \<open>e\<close> lowest bits. For two such values \<open>a\<close>
  and \<open>b\<close>, \<open>float_div_gt_max_load a b\<close> says that the rounded quotient exceeds \<open>0.75f\<close>:
  \<open>0.75\<close> is a binary32 number with an even significand whose successor is
  \<open>0.75 + 2 ^ -24\<close>, so the rounded quotient is above it exactly when the quotient is
  above the midpoint \<open>0.75 + 2 ^ -25\<close>, that is when \<open>2 ^ 25 * a > (3 * 2 ^ 23 + 1) * b\<close>;
  a positive number divided by zero is \<open>+\<infinity>\<close>, and \<open>0 / 0\<close> is a NaN, which compares false.
\<close>

definition float_of_u32 :: "32 word \<Rightarrow> nat" where
  "float_of_u32 w =
     (let n = unat w;
          e = floorlog 2 n - 24;
          q = n div 2 ^ e;
          r = n mod 2 ^ e
      in if 2 * r < 2 ^ e \<or> (2 * r = 2 ^ e \<and> even q) then q * 2 ^ e else (q + 1) * 2 ^ e)"

definition float_div_gt_max_load :: "nat \<Rightarrow> nat \<Rightarrow> bool" where
  "float_div_gt_max_load a b =
     (if b = 0 then 0 < a else (3 * 2 ^ 23 + 1) * b < 2 ^ 25 * a)"

definition needs_grow :: "('k, 'v) hash_map \<Rightarrow> bool" where
  "needs_grow m =
     float_div_gt_max_load (float_of_u32 (m_size m + 1)) (float_of_u32 (capacity m))"

subsection \<open>Insertion and growth\<close>

text \<open>
  A reference into the slot array is the index of its slot. \<open>assign_second\<close> is an
  assignment through the reference that \<open>operator[]\<close> returned.
\<close>

definition second_at :: "('k, 'v) hash_map \<Rightarrow> 64 word \<Rightarrow> 'v" where
  "second_at m index = snd (data (entries m ! unat index))"

definition assign_second :: "64 word \<Rightarrow> 'v \<Rightarrow> ('k, 'v) hash_map \<Rightarrow> ('k, 'v) hash_map" where
  "assign_second index val m =
     m\<lparr>entries := (entries m)[unat index :=
          (entries m ! unat index)\<lparr>data := (fst (data (entries m ! unat index)), val)\<rparr>]\<rparr>"

text \<open>
  \<open>operator[]\<close> calls \<open>grow\<close>, whose loop calls \<open>operator[]\<close> again. The first argument
  bounds the depth of nested calls of \<open>grow\<close>; when it is used up there is no result.
\<close>

fun index_or_insert ::
    "nat \<Rightarrow> ('k, 'v) params \<Rightarrow> 'k \<Rightarrow> ('k, 'v) hash_map \<Rightarrow> (64 word \<times> ('k, 'v) hash_map) result"
  and grow :: "nat \<Rightarrow> ('k, 'v) params \<Rightarrow> ('k, 'v) hash_map \<Rightarrow> ('k, 'v) hash_map result" where
  "index_or_insert d P key m =
     bind_res (if needs_grow m then grow d P m else Some (Inr m)) (\<lambda>m1.
     bind_res (find_slot P m1 key) (\<lambda>index.
       if state (entries m1 ! unat index) \<noteq> 1
       then Some (Inr (index,
              m1\<lparr>entries := (entries m1)[unat index :=
                     insert_entry key (value_init P) (entries m1 ! unat index)],
                 m_size := m_size m1 + 1\<rparr>))
       else Some (Inr (index, m1))))"
| "grow 0 P m = None"
| "grow (Suc d) P m =
     (let old_cap = capacity m;
          old_entries = entries m;
          m1 = m\<lparr>capacity := capacity m * 2\<rparr>;
          m2 = m1\<lparr>entries := new_entries P (capacity m1)\<rparr>;
          m3 = m2\<lparr>m_size := 0\<rparr>
      in foldl (\<lambda>acc i. bind_res acc (\<lambda>m'.
            if length old_entries \<le> i then Some (Inl OutOfBounds)
            else if state (old_entries ! i) = 1
            then bind_res (index_or_insert d P (fst (data (old_entries ! i))) m')
                   (\<lambda>(index, m''). Some (Inr (assign_second index (snd (data (old_entries ! i))) m'')))
            else Some (Inr m')))
          (Some (Inr m3)) [0..<unat old_cap])"

text \<open>
  The part of \<open>operator[]\<close> after the growth test (used to state lemmas about it):
  \<open>index_or_insert d P key m\<close> is \<open>place_key P key\<close> applied to \<open>m\<close> or to the grown map.
\<close>

definition place_key ::
  "('k, 'v) params \<Rightarrow> 'k \<Rightarrow> ('k, 'v) hash_map \<Rightarrow> (64 word \<times> ('k, 'v) hash_map) result" where
  "place_key P key m1 =
     bind_res (find_slot P m1 key) (\<lambda>index.
       if state (entries m1 ! unat index) \<noteq> 1
       then Some (Inr (index,
              m1\<lparr>entries := (entries m1)[unat index :=
                     insert_entry key (value_init P) (entries m1 ! unat index)],
                 m_size := m_size m1 + 1\<rparr>))
       else Some (Inr (index, m1)))"

text \<open>
  The parts of \<open>grow\<close> (used to state lemmas about it): the map with the new, empty
  table, and one iteration of the loop over the old slots.
\<close>

definition grown_empty :: "('k, 'v) params \<Rightarrow> ('k, 'v) hash_map \<Rightarrow> ('k, 'v) hash_map" where
  "grown_empty P m =
     m\<lparr>capacity := capacity m * 2, entries := new_entries P (capacity m * 2), m_size := 0\<rparr>"

definition rehash_step ::
  "nat \<Rightarrow> ('k, 'v) params \<Rightarrow> ('k, 'v) Entry list \<Rightarrow> ('k, 'v) hash_map result \<Rightarrow> nat
     \<Rightarrow> ('k, 'v) hash_map result" where
  "rehash_step d P old_entries acc i =
     bind_res acc (\<lambda>m'.
       if length old_entries \<le> i then Some (Inl OutOfBounds)
       else if state (old_entries ! i) = 1
       then bind_res (index_or_insert d P (fst (data (old_entries ! i))) m')
              (\<lambda>(index, m''). Some (Inr (assign_second index (snd (data (old_entries ! i))) m'')))
       else Some (Inr m'))"

text \<open>The statement \<open>m[key] = val\<close>.\<close>

definition subscript_assign ::
  "nat \<Rightarrow> ('k, 'v) params \<Rightarrow> 'k \<Rightarrow> 'v \<Rightarrow> ('k, 'v) hash_map \<Rightarrow> ('k, 'v) hash_map result" where
  "subscript_assign d P key val m =
     bind_res (index_or_insert d P key m) (\<lambda>(index, m'). Some (Inr (assign_second index val m')))"

subsection \<open>Lookup, construction, clearing, moving\<close>

text \<open>\<open>find_map\<close> is \<open>find\<close>: it returns a pointer to the value (the index of its slot) or \<open>nullptr\<close> (\<open>None\<close>).\<close>

definition find_map :: "('k, 'v) params \<Rightarrow> ('k, 'v) hash_map \<Rightarrow> 'k \<Rightarrow> 64 word option result" where
  "find_map P m key =
     bind_res (find_slot P m key) (\<lambda>index.
       if state (entries m ! unat index) = 1 \<and> fst (data (entries m ! unat index)) = key
       then Some (Inr (Some index))
       else Some (Inr None))"

text \<open>
  The overload of \<open>find\<close> on a map that is not \<open>const\<close>, as a function of the state:
  it returns the pointer and the map as its body leaves it.
\<close>

definition find_mut ::
  "('k, 'v) params \<Rightarrow> ('k, 'v) hash_map \<Rightarrow> 'k \<Rightarrow> (64 word option \<times> ('k, 'v) hash_map) result" where
  "find_mut P m key =
     bind_res (find_slot P m key) (\<lambda>index.
       if state (entries m ! unat index) = 1 \<and> fst (data (entries m ! unat index)) = key
       then Some (Inr (Some index, m))
       else Some (Inr (None, m)))"

definition construct_map :: "('k, 'v) params \<Rightarrow> ('k, 'v) hash_map" where
  "construct_map P =
     \<lparr>entries = new_entries P (ucast (InitialSize P)),
      capacity = ucast (InitialSize P),
      m_size = 0\<rparr>"

definition clear_map :: "('k, 'v) params \<Rightarrow> ('k, 'v) hash_map \<Rightarrow> ('k, 'v) hash_map" where
  "clear_map P m =
     (let m1 = m\<lparr>capacity := ucast (InitialSize P)\<rparr>;
          m2 = m1\<lparr>entries := new_entries P (capacity m1)\<rparr>
      in m2\<lparr>m_size := 0\<rparr>)"

definition size_map :: "('k, 'v) hash_map \<Rightarrow> 64 word" where
  "size_map m = ucast (m_size m)"

definition empty_map :: "('k, 'v) hash_map \<Rightarrow> bool" where
  "empty_map m = (m_size m = 0)"

text \<open>
  The move constructor and the move assignment of two distinct objects: the result is the
  pair of the destination and the source afterwards. The source keeps a null pointer.
\<close>

definition move_from :: "('k, 'v) hash_map \<Rightarrow> ('k, 'v) hash_map \<times> ('k, 'v) hash_map" where
  "move_from other =
     (\<lparr>entries = entries other, capacity = capacity other, m_size = m_size other\<rparr>,
      other\<lparr>entries := [], capacity := 0, m_size := 0\<rparr>)"

definition move_assign ::
  "('k, 'v) hash_map \<Rightarrow> ('k, 'v) hash_map \<Rightarrow> ('k, 'v) hash_map \<times> ('k, 'v) hash_map" where
  "move_assign this other =
     (this\<lparr>entries := entries other, capacity := capacity other, m_size := m_size other\<rparr>,
      other\<lparr>entries := [], capacity := 0, m_size := 0\<rparr>)"

definition find_value :: "('k, 'v) params \<Rightarrow> ('k, 'v) hash_map \<Rightarrow> 'k \<Rightarrow> 'v option result" where
  "find_value P m key =
     bind_res (find_map P m key) (\<lambda>p. Some (Inr (map_option (second_at m) p)))"

subsection \<open>A sequence of assignments\<close>

text \<open>The loop \<open>for (...) m[key] = val;\<close> of the benchmarks, over a list of pairs.\<close>

fun assign_all ::
  "nat \<Rightarrow> ('k, 'v) params \<Rightarrow> ('k \<times> 'v) list \<Rightarrow> ('k, 'v) hash_map \<Rightarrow> ('k, 'v) hash_map result" where
  "assign_all d P [] m = Some (Inr m)"
| "assign_all d P (kv # kvs) m =
     bind_res (subscript_assign d P (fst kv) (snd kv) m) (assign_all d P kvs)"

subsection \<open>Keys of type \<open>int\<close>\<close>

text \<open>
  A 32-bit \<open>int\<close> on a little-endian machine: \<open>hash_fn\<close> reads its four bytes from the
  least significant one. \<open>int_params\<close> is \<open>shared::map<int, int>\<close>, with the default
  initial size.
\<close>

definition int_repr :: "32 word \<Rightarrow> 8 word list" where
  "int_repr x = [ucast x, ucast (drop_bit 8 x), ucast (drop_bit 16 x), ucast (drop_bit 24 x)]"

definition int_params :: "(32 word, 32 word) params" where
  "int_params = \<lparr>repr = int_repr, key_init = 0, value_init = 0, InitialSize = 8\<rparr>"

text \<open>The assignments of the loop \<open>for (int i = 0; i < n; ++i) m[i] = i;\<close>.\<close>

definition insertion_loop :: "nat \<Rightarrow> (32 word \<times> 32 word) list" where
  "insertion_loop n = map (\<lambda>i. (of_nat i, of_nat i)) [0..<n]"

text \<open>The state of a \<open>shared::map<int, int>\<close> after \<open>m[0] = 100\<close>.\<close>

definition one_key_map :: "(32 word, 32 word) hash_map" where
  "one_key_map =
     \<lparr>entries = (new_entries int_params 8)[0 := insert_entry 0 100 (Entry_init int_params)],
      capacity = 8,
      m_size = 1\<rparr>"

text \<open>The state after \<open>m[i] = i + 100\<close> for \<open>i = 0, \<dots>, 5\<close>.\<close>

definition six_key_map :: "(32 word, 32 word) hash_map" where
  "six_key_map =
     \<lparr>entries = map (\<lambda>i. \<lparr>state = 1, data = (of_nat i, of_nat i + 100)\<rparr>) [0..<6]
                  @ replicate 2 (Entry_init int_params),
      capacity = 8,
      m_size = 6\<rparr>"

subsection \<open>The probe sequence\<close>

text \<open>
  \<open>probe_index cap home n\<close> is the value of \<open>index\<close> when the loop of \<open>find_slot\<close> tests
  its slot for the \<open>n\<close>-th time (counting from 0): the loop counter \<open>i\<close> then has the
  value \<open>n\<close>. \<open>find_slot_trace\<close> is the loop of \<open>find_slot\<close> with a record of the indices
  it examines. \<open>spec_probe_index\<close> is the sequence as the specification words it: the
  home slot, then steps of 1, 2, 3, \<dots>
\<close>

fun probe_index :: "32 word \<Rightarrow> 64 word \<Rightarrow> nat \<Rightarrow> 64 word" where
  "probe_index cap home 0 = home"
| "probe_index cap home (Suc n) = (probe_index cap home n + of_nat n) AND ucast (cap - 1)"

partial_function (option) find_slot_trace ::
  "('k, 'v) Entry list \<Rightarrow> 32 word \<Rightarrow> 'k \<Rightarrow> 64 word \<Rightarrow> 64 word \<Rightarrow> 64 word list
     \<Rightarrow> (64 word list \<times> (error + 64 word)) option" where
  "find_slot_trace es cap key index i examined =
     (if length es \<le> unat index then Some (examined @ [index], Inl OutOfBounds)
      else if state (es ! unat index) \<noteq> 1 \<or> fst (data (es ! unat index)) = key
        then Some (examined @ [index], Inr index)
      else find_slot_trace es cap key ((index + i) AND ucast (cap - 1)) (i + 1)
             (examined @ [index]))"

declare find_slot_trace.simps [code]

fun spec_probe_index :: "32 word \<Rightarrow> 64 word \<Rightarrow> nat \<Rightarrow> 64 word" where
  "spec_probe_index cap home 0 = home"
| "spec_probe_index cap home (Suc n) =
     (spec_probe_index cap home n + of_nat (Suc n)) AND ucast (cap - 1)"

definition tri :: "nat \<Rightarrow> nat" where
  "tri n = n * (n + 1) div 2"

subsection \<open>Well-formed maps\<close>

text \<open>
  \<open>table_ok\<close> is the representation invariant of a map that owns a table: the capacity is
  a power of two and the length of the slot array, \<open>m_size\<close> counts the occupied slots,
  one slot at least is not occupied, and the probe sequence of the key of every occupied
  slot ends at that slot. \<open>content\<close> is the set of key-value pairs in occupied slots.
\<close>

definition is_pow2 :: "32 word \<Rightarrow> bool" where
  "is_pow2 c = (\<exists>k\<in>{0..<32}. c = 2 ^ k)"

definition table_ok :: "('k, 'v) params \<Rightarrow> ('k, 'v) hash_map \<Rightarrow> bool" where
  "table_ok P m =
     (is_pow2 (capacity m) \<and>
      length (entries m) = unat (capacity m) \<and>
      unat (m_size m) = length (filter (\<lambda>e. state e = 1) (entries m)) \<and>
      unat (m_size m) < unat (capacity m) \<and>
      (\<forall>i\<in>{0..<length (entries m)}. state (entries m ! i) = 1 \<longrightarrow>
          find_slot P m (fst (data (entries m ! i))) = Some (Inr (of_nat i))))"

definition content :: "('k, 'v) hash_map \<Rightarrow> ('k \<times> 'v) set" where
  "content m = data ` {e \<in> set (entries m). state e = 1}"

text \<open>
  The maps that a program reaches from a constructed one by \<open>operator[]\<close>, assignments
  through it, \<open>clear\<close>, and by taking over the table of such a map in a move. \<open>find\<close>
  does not change the map.
\<close>

inductive reachable :: "('k, 'v) params \<Rightarrow> ('k, 'v) hash_map \<Rightarrow> bool" for P where
  reach_construct: "reachable P (construct_map P)"
| reach_index: "reachable P m \<Longrightarrow> index_or_insert d P key m = Some (Inr (index, m'))
     \<Longrightarrow> reachable P m'"
| reach_assign: "reachable P m \<Longrightarrow> subscript_assign d P key val m = Some (Inr m')
     \<Longrightarrow> reachable P m'"
| reach_clear: "reachable P m \<Longrightarrow> reachable P (clear_map P m)"
| reach_move_from: "reachable P other \<Longrightarrow> reachable P (fst (move_from other))"
| reach_move_assign: "reachable P other \<Longrightarrow> reachable P (fst (move_assign this other))"

section \<open>Clearing\<close>

lemma clear_eq_construct: "clear_map P m = construct_map P"
  by (simp add: clear_map_def construct_map_def)

text \<open>
  Claim C8. For every map, \<open>clear()\<close> resets \<open>size()\<close> to 0 and the capacity to the
  configured initial capacity (the one the constructor sets), and the cleared map is the
  state of a freshly constructed map with the same configuration, so every operation
  sequence on it behaves as on a fresh map.
\<close>

theorem clear_resets_to_fresh:
  "size_map (clear_map P m) = 0 \<and>
   capacity (clear_map P m) = ucast (InitialSize P) \<and>
   capacity (clear_map P m) = capacity (construct_map P) \<and>
   clear_map P m = construct_map P \<and>
   index_or_insert d P key (clear_map P m) = index_or_insert d P key (construct_map P) \<and>
   find_map P (clear_map P m) key = find_map P (construct_map P) key \<and>
   assign_all d P kvs (clear_map P m) = assign_all d P kvs (construct_map P)"
  unfolding clear_eq_construct by (simp add: construct_map_def size_map_def)

section \<open>Triangular numbers modulo a power of two\<close>

lemma tri_double: "2 * tri n = n * (n + 1)"
  unfolding tri_def by simp

lemma tri_Suc: "tri (Suc n) = tri n + Suc n"
proof -
  have "2 * tri (Suc n) = 2 * tri n + 2 * Suc n"
    unfolding tri_double by simp
  then show ?thesis by simp
qed

lemma tri_mono: "i \<le> j \<Longrightarrow> tri i \<le> tri j"
  by (induction j) (auto simp: tri_Suc le_Suc_eq)

lemma tri_diff:
  assumes "j \<le> i"
  shows "2 * (tri i - tri j) = (i - j) * (i + j + 1)"
proof -
  obtain d where i: "i = j + d" using assms le_Suc_ex by blast
  have "2 * (tri i - tri j) = 2 * tri i - 2 * tri j" by simp
  also have "\<dots> = (j + d) * (j + d + 1) - j * (j + 1)" by (simp add: tri_double i)
  also have "\<dots> = d * (2 * j + d + 1)" by (simp add: algebra_simps)
  finally show ?thesis by (simp add: i algebra_simps)
qed

lemma tri_inj_less:
  assumes ji: "j < i" and i: "i < 2 ^ k"
    and eq: "(h + tri i) mod 2 ^ k = (h + tri j) mod 2 ^ k"
  shows False
proof -
  have "h + tri j \<le> h + tri i" using tri_mono [of j i] ji by simp
  then have "(2::nat) ^ k dvd (h + tri i) - (h + tri j)"
    using eq by (simp only: mod_eq_dvd_iff_nat)
  then have "(2::nat) ^ k dvd tri i - tri j" by simp
  then have "2 * (2::nat) ^ k dvd 2 * (tri i - tri j)" by simp
  then have dv: "(2::nat) ^ Suc k dvd (i - j) * (i + j + 1)"
    using ji by (simp add: tri_diff)
  show False
  proof (cases "even (i - j)")
    case True
    then have "odd (i + j + 1)" using ji by auto
    then have c: "coprime ((2::nat) ^ Suc k) (i + j + 1)" by simp
    have "(2::nat) ^ Suc k dvd i - j"
      using coprime_dvd_mult_left_iff [OF c] dv by blast
    moreover have "0 < i - j" "i - j < 2 ^ Suc k" using ji i by auto
    ultimately show False using dvd_imp_le [of "2 ^ Suc k" "i - j"] by simp
  next
    case False
    then have c: "coprime ((2::nat) ^ Suc k) (i - j)" by simp
    have "(2::nat) ^ Suc k dvd i + j + 1"
      using coprime_dvd_mult_right_iff [OF c] dv by blast
    moreover have "i + j + 1 < 2 ^ Suc k" using ji i by auto
    ultimately show False using dvd_imp_le [of "2 ^ Suc k" "i + j + 1"] by simp
  qed
qed

lemma tri_inj_on: "inj_on (\<lambda>n. (h + tri n) mod 2 ^ k) {..<2 ^ k}"
proof (rule inj_onI)
  fix i j assume "i \<in> {..<(2::nat) ^ k}" "j \<in> {..<(2::nat) ^ k}"
    "(h + tri i) mod 2 ^ k = (h + tri j) mod 2 ^ k"
  then show "i = j"
    using tri_inj_less [of i j k h] tri_inj_less [of j i k h]
    by (metis lessThan_iff linorder_neqE_nat)
qed

lemma tri_image: "(\<lambda>n. (h + tri n) mod 2 ^ k) ` {..<2 ^ k} = {..<2 ^ k}"
proof -
  let ?f = "\<lambda>n. (h + tri n) mod 2 ^ k"
  have "?f ` {..<2 ^ k} \<subseteq> {..<2 ^ k}" by auto
  moreover have "card (?f ` {..<2 ^ k}) = card {..<(2::nat) ^ k}"
    using tri_inj_on by (rule card_image)
  ultimately show ?thesis
    by (intro card_subset_eq) auto
qed

lemma tri_surj:
  assumes "s < 2 ^ k"
  shows "\<exists>n<2 ^ k. (h + tri n) mod 2 ^ k = s"
proof -
  have "s \<in> (\<lambda>n. (h + tri n) mod 2 ^ k) ` {..<2 ^ k}"
    using assms by (simp only: tri_image lessThan_iff)
  then show ?thesis by auto
qed

section \<open>The probe sequence in closed form\<close>

lemma ucast_pow2_minus_1:
  assumes "k < 32"
  shows "(ucast ((2::32 word) ^ k - 1) :: 64 word) = mask k"
proof -
  have "(2::32 word) ^ k - 1 = mask k" by (simp add: mask_eq_exp_minus_1)
  moreover have "(ucast (mask k :: 32 word) :: 64 word) = mask k"
    using assms by (simp add: ucast_mask_eq min_def)
  ultimately show ?thesis by simp
qed

lemma unat_and_mask64:
  "unat ((w :: 64 word) AND mask k) = unat w mod 2 ^ k"
proof -
  have "w AND mask k = take_bit k w" by (simp only: take_bit_eq_mask)
  then have "unat (w AND mask k) = take_bit k (unat w)" by (simp only: unsigned_take_bit_eq)
  also have "\<dots> = unat w mod 2 ^ k" by (rule take_bit_eq_mod)
  finally show ?thesis .
qed

lemma unat_step:
  assumes "k < 32"
  shows "unat (((a :: 64 word) + of_nat b) AND ucast ((2::32 word) ^ k - 1)) = (unat a + b) mod 2 ^ k"
proof -
  have d: "(2::nat) ^ k dvd 2 ^ 64" using assms by (intro le_imp_power_dvd) simp
  have "unat (a + of_nat b) = (unat a + b) mod 2 ^ 64"
    by (simp add: unat_word_ariths unat_of_nat mod_add_right_eq)
  then have "unat ((a + of_nat b) AND (mask k :: 64 word)) = ((unat a + b) mod 2 ^ 64) mod 2 ^ k"
    unfolding unat_and_mask64 by simp
  also have "\<dots> = (unat a + b) mod 2 ^ k"
    using d by (rule mod_mod_cancel)
  finally show ?thesis using assms by (simp only: ucast_pow2_minus_1)
qed

lemma unat_home:
  assumes "k < 32"
  shows "unat ((a :: 64 word) AND ucast ((2::32 word) ^ k - 1)) = unat a mod 2 ^ k"
  using unat_step [OF assms, of a 0] by simp

lemma unat_probe_index:
  assumes "k < 32"
  shows "unat (probe_index (2 ^ k) home (Suc n)) = (unat home + tri n) mod 2 ^ k"
proof (induction n)
  case 0
  show ?case using unat_step [OF assms, of home 0] by (simp add: tri_def)
next
  case (Suc n)
  have "unat (probe_index (2 ^ k) home (Suc (Suc n)))
        = (unat (probe_index (2 ^ k) home (Suc n)) + Suc n) mod 2 ^ k"
    using unat_step [OF assms, of "probe_index (2 ^ k) home (Suc n)" "Suc n"] by simp
  also have "\<dots> = (unat home + tri n + Suc n) mod 2 ^ k"
    unfolding Suc.IH by (rule mod_add_left_eq)
  finally show ?case by (simp add: tri_Suc add.assoc)
qed

lemma probe_index_1:
  assumes "k < 32" "unat home < 2 ^ k"
  shows "probe_index (2 ^ k) home 1 = home"
proof -
  have "unat (probe_index (2 ^ k) home (Suc 0)) = (unat home + tri 0) mod 2 ^ k"
    using assms(1) by (rule unat_probe_index)
  then have "unat (probe_index (2 ^ k) home (Suc 0)) = unat home"
    using assms(2) by (simp add: tri_def)
  then show ?thesis by (simp only: word_unat_eq_iff One_nat_def)
qed

lemma probe_index_covers:
  assumes "k < 32" "s < 2 ^ k"
  shows "\<exists>n<2 ^ k. unat (probe_index (2 ^ k) home (Suc n)) = s"
  using tri_surj [OF assms(2), of "unat home"] unfolding unat_probe_index [OF assms(1)] .

lemma probe_index_bound:
  assumes "k < 32"
  shows "unat (probe_index (2 ^ k) home (Suc n)) < 2 ^ k"
  unfolding unat_probe_index [OF assms] by simp

section \<open>The loop follows the probe sequence\<close>

lemma find_slot_loop_probe:
  assumes "j \<le> n"
    and "\<And>t. j \<le> t \<Longrightarrow> t \<le> n \<Longrightarrow> unat (probe_index cap home t) < length es"
    and "\<And>t. j \<le> t \<Longrightarrow> t < n \<Longrightarrow>
           state (es ! unat (probe_index cap home t)) = 1 \<and>
           fst (data (es ! unat (probe_index cap home t))) \<noteq> key"
    and "state (es ! unat (probe_index cap home n)) \<noteq> 1 \<or>
           fst (data (es ! unat (probe_index cap home n))) = key"
  shows "find_slot_loop es cap key (probe_index cap home j) (of_nat j)
         = Some (Inr (probe_index cap home n))"
  using assms
proof (induction "n - j" arbitrary: j)
  case 0
  then have jn: "j = n" by simp
  have "unat (probe_index cap home n) < length es" using 0 jn by simp
  then show ?case using "0.prems"(4) unfolding jn
    by (subst find_slot_loop.simps) (simp add: linorder_not_le [symmetric])
next
  case (Suc d)
  then have jn: "j < n" by simp
  have "find_slot_loop es cap key (probe_index cap home (Suc j)) (of_nat (Suc j))
        = Some (Inr (probe_index cap home n))"
    using Suc by (intro Suc.hyps(1)) auto
  moreover have "unat (probe_index cap home j) < length es" using Suc.prems jn by simp
  ultimately show ?case
    using Suc.prems(3) [of j] jn
    by (subst find_slot_loop.simps) (simp add: add.commute)
qed

lemma find_slot_trace_probe:
  assumes "j \<le> n"
    and "\<And>t. j \<le> t \<Longrightarrow> t \<le> n \<Longrightarrow> unat (probe_index cap home t) < length es"
    and "\<And>t. j \<le> t \<Longrightarrow> t < n \<Longrightarrow>
           state (es ! unat (probe_index cap home t)) = 1 \<and>
           fst (data (es ! unat (probe_index cap home t))) \<noteq> key"
    and "state (es ! unat (probe_index cap home n)) \<noteq> 1 \<or>
           fst (data (es ! unat (probe_index cap home n))) = key"
  shows "find_slot_trace es cap key (probe_index cap home j) (of_nat j) examined
         = Some (examined @ map (probe_index cap home) [j..<Suc n], Inr (probe_index cap home n))"
  using assms
proof (induction "n - j" arbitrary: j examined)
  case 0
  then have jn: "j = n" by simp
  have "unat (probe_index cap home n) < length es" using 0 jn by simp
  then show ?case using "0.prems"(4) unfolding jn
    by (subst find_slot_trace.simps) (simp add: linorder_not_le [symmetric])
next
  case (Suc d)
  then have jn: "j < n" by simp
  have "find_slot_trace es cap key (probe_index cap home (Suc j)) (of_nat (Suc j))
          (examined @ [probe_index cap home j])
        = Some ((examined @ [probe_index cap home j]) @ map (probe_index cap home) [Suc j..<Suc n],
                Inr (probe_index cap home n))"
    using Suc by (intro Suc.hyps(1)) auto
  moreover have "unat (probe_index cap home j) < length es" using Suc.prems jn by simp
  moreover have "[j..<Suc n] = j # [Suc j..<Suc n]" using jn by (simp add: upt_conv_Cons)
  ultimately show ?case
    using Suc.prems(3) [of j] jn
    by (subst find_slot_trace.simps) (simp add: add.commute)
qed

section \<open>Coverage of the probe sequence\<close>

lemma probe_index_inj:
  assumes k: "k < 32" and a: "a < 2 ^ k" and b: "b < 2 ^ k"
    and eq: "probe_index (2 ^ k) home (Suc a) = probe_index (2 ^ k) home (Suc b)"
  shows "a = b"
proof -
  have "unat (probe_index (2 ^ k) home (Suc a)) = unat (probe_index (2 ^ k) home (Suc b))"
    using eq by (rule arg_cong)
  then have "(unat home + tri a) mod 2 ^ k = (unat home + tri b) mod 2 ^ k"
    unfolding unat_probe_index [OF k] .
  then show ?thesis
    using tri_inj_on [of "unat home" k] a b by (auto dest: inj_onD)
qed

lemma probe_index_distinct:
  assumes k: "k < 32"
  shows "distinct (map (probe_index (2 ^ k) home) [1..<Suc (2 ^ k)])"
proof -
  have "inj_on (probe_index (2 ^ k) home) (set [1..<Suc (2 ^ k)])"
  proof (rule inj_onI)
    fix x y
    assume x: "x \<in> set [1..<Suc (2 ^ k)]" and y: "y \<in> set [1..<Suc (2 ^ k)]"
      and eq: "probe_index (2 ^ k) home x = probe_index (2 ^ k) home y"
    have "1 \<le> x \<and> x < Suc (2 ^ k)" using x by (simp only: set_upt atLeastLessThan_iff)
    then obtain a where xa: "x = Suc a" "a < 2 ^ k" by (cases x) auto
    have "1 \<le> y \<and> y < Suc (2 ^ k)" using y by (simp only: set_upt atLeastLessThan_iff)
    then obtain b where yb: "y = Suc b" "b < 2 ^ k" by (cases y) auto
    show "x = y" using probe_index_inj [OF k xa(2) yb(2)] eq unfolding xa(1) yb(1) by simp
  qed
  then show ?thesis by (simp add: distinct_map)
qed

lemma probe_index_set:
  assumes k: "k < 32"
  shows "set (map (probe_index (2 ^ k) home) [1..<Suc (2 ^ k)]) = {w. unat w < 2 ^ k}"
proof (intro equalityI subsetI)
  fix w assume "w \<in> set (map (probe_index (2 ^ k) home) [1..<Suc (2 ^ k)])"
  then obtain x where x: "x \<in> set [1..<Suc (2 ^ k)]" "w = probe_index (2 ^ k) home x"
    unfolding set_map by blast
  have "1 \<le> x" using x(1) by (simp only: set_upt atLeastLessThan_iff)
  then obtain a where "x = Suc a" by (cases x) auto
  then show "w \<in> {w. unat w < 2 ^ k}"
    using probe_index_bound [OF k, of home a] x(2) by simp
next
  fix w :: "64 word" assume "w \<in> {w. unat w < 2 ^ k}"
  then have "unat w < 2 ^ k" by simp
  then obtain n where n: "n < 2 ^ k" "unat (probe_index (2 ^ k) home (Suc n)) = unat w"
    using probe_index_covers [OF k] by blast
  then have "probe_index (2 ^ k) home (Suc n) = w" by (simp only: word_unat_eq_iff)
  moreover have "Suc n \<in> set [1..<Suc (2 ^ k)]"
    using n(1) by (simp only: set_upt atLeastLessThan_iff) simp
  ultimately show "w \<in> set (map (probe_index (2 ^ k) home) [1..<Suc (2 ^ k)])"
    unfolding set_map by (rule image_eqI [OF sym])
qed

text \<open>
  Claim C2, as the code has it. For a capacity \<open>2 ^ k\<close> and a home slot below it, the
  loop of \<open>find_slot\<close> examines the home slot twice (its counter starts at 0, so the first
  step adds nothing), and the \<open>2 ^ k\<close> examinations that follow the first one visit every
  slot index below the capacity exactly once.
\<close>

theorem probe_sequence_covers_after_home:
  assumes "k < 32" and "unat home < 2 ^ k"
  shows "probe_index (2 ^ k) home 1 = probe_index (2 ^ k) home 0 \<and>
         distinct (map (probe_index (2 ^ k) home) [1..<Suc (2 ^ k)]) \<and>
         set (map (probe_index (2 ^ k) home) [1..<Suc (2 ^ k)]) = {w. unat w < 2 ^ k}"
  using probe_index_1 [OF assms] probe_index_distinct [OF assms(1)] probe_index_set [OF assms(1)]
  by simp

theorem probe_sequence_covers_after_home_witness:
  "probe_index (2 ^ 3) 3 1 = probe_index (2 ^ 3) 3 0 \<and>
   distinct (map (probe_index (2 ^ 3) 3) [1..<Suc (2 ^ 3)]) \<and>
   set (map (probe_index (2 ^ 3) 3) [1..<Suc (2 ^ 3)]) = {w. unat w < 2 ^ 3}"
proof -
  have h1: "(3::nat) < 32" by simp
  have h2: "unat (3 :: 64 word) < 2 ^ 3" by simp
  show ?thesis using probe_sequence_covers_after_home [OF h1 h2] .
qed

text \<open>
  The claim as stated fails: from home slot 3 of a table of capacity 8 the first eight
  examined indices are 3, 3, 4, 6, 1, 5, 2, 0, so slot 3 repeats before slot 7 is visited.
\<close>

theorem probe_sequence_repeats_home_counterexample:
  "\<not> distinct (map (probe_index 8 3) [0..<8]) \<and>
   map (probe_index 8 3) [0..<8] = [3, 3, 4, 6, 1, 5, 2, 0]"
  by code_simp

section \<open>The examined indices\<close>

lemma probe_index_Suc_spec:
  assumes "home AND ucast (cap - 1) = home"
  shows "probe_index cap home (Suc n) = spec_probe_index cap home n"
proof (induction n)
  case 0
  show ?case using assms by simp
next
  case (Suc n)
  have "probe_index cap home (Suc (Suc n))
        = (probe_index cap home (Suc n) + of_nat (Suc n)) AND ucast (cap - 1)"
    by (rule probe_index.simps(2))
  then show ?case unfolding Suc.IH by simp
qed

text \<open>
  Claim C3, as the code has it. \<open>find_slot\<close> computes \<open>home = hash & (capacity - 1)\<close>,
  examines \<open>home\<close>, and returns the index of the first examined slot that is not
  occupied or holds the key; otherwise it advances by
  \<open>index = (index + attempt) & (capacity - 1)\<close> for \<open>attempt = 0, 1, 2, 3, \<dots>\<close>
  The examined indices are exactly \<open>probe_index 0, \<dots>, probe_index n\<close>, where \<open>n\<close> is the
  first position of a terminating slot: the home slot, the home slot a second time, and
  then the sequence of the specification, with steps 1, 2, 3, \<dots>
\<close>

theorem find_slot_examines_probe_sequence:
  assumes home: "home = hash_fn (repr P key) AND ucast (capacity m - 1)"
    and bounds: "\<forall>t\<le>n. unat (probe_index (capacity m) home t) < length (entries m)"
    and busy: "\<forall>t<n. state (entries m ! unat (probe_index (capacity m) home t)) = 1 \<and>
                 fst (data (entries m ! unat (probe_index (capacity m) home t))) \<noteq> key"
    and stop: "state (entries m ! unat (probe_index (capacity m) home n)) \<noteq> 1 \<or>
                 fst (data (entries m ! unat (probe_index (capacity m) home n))) = key"
  shows "find_slot P m key = Some (Inr (probe_index (capacity m) home n)) \<and>
         find_slot_trace (entries m) (capacity m) key home 0 []
           = Some (map (probe_index (capacity m) home) [0..<Suc n],
                   Inr (probe_index (capacity m) home n)) \<and>
         map (probe_index (capacity m) home) [0..<Suc n]
           = home # map (spec_probe_index (capacity m) home) [0..<n]"
proof -
  have a: "find_slot_loop (entries m) (capacity m) key (probe_index (capacity m) home 0) (of_nat 0)
           = Some (Inr (probe_index (capacity m) home n))"
    using bounds busy stop by (intro find_slot_loop_probe) auto
  have b: "find_slot_trace (entries m) (capacity m) key (probe_index (capacity m) home 0) (of_nat 0) []
           = Some ([] @ map (probe_index (capacity m) home) [0..<Suc n],
                   Inr (probe_index (capacity m) home n))"
    using bounds busy stop by (intro find_slot_trace_probe) auto
  have idem: "home AND ucast (capacity m - 1) = home"
    unfolding home by (simp add: and.assoc)
  have "map (probe_index (capacity m) home) [0..<Suc n]
        = probe_index (capacity m) home 0 # map (probe_index (capacity m) home) (map Suc [0..<n])"
    by (simp only: upt_conv_Cons [of 0 "Suc n"] map_Suc_upt list.map)
  also have "\<dots> = home # map (spec_probe_index (capacity m) home) [0..<n]"
    using probe_index_Suc_spec [OF idem] by (simp add: comp_def)
  finally have c: "map (probe_index (capacity m) home) [0..<Suc n]
        = home # map (spec_probe_index (capacity m) home) [0..<n]" .
  show ?thesis using a b c by (simp add: find_slot_def home)
qed


theorem find_slot_examines_probe_sequence_witness:
  "find_slot int_params one_key_map 8 = Some (Inr 1) \<and>
   find_slot_trace (entries one_key_map) (capacity one_key_map) 8 0 0 [] = Some ([0, 0, 1], Inr 1) \<and>
   map (probe_index (capacity one_key_map) 0) [0..<Suc (Suc (Suc 0))]
     = 0 # map (spec_probe_index (capacity one_key_map) 0) [0..<Suc (Suc 0)]"
proof -
  have cap: "capacity one_key_map = 8" by (simp add: one_key_map_def)
  have es: "entries one_key_map =
      [\<lparr>state = 1, data = (0, 100)\<rparr>, \<lparr>state = 0, data = (0, 0)\<rparr>, \<lparr>state = 0, data = (0, 0)\<rparr>,
       \<lparr>state = 0, data = (0, 0)\<rparr>, \<lparr>state = 0, data = (0, 0)\<rparr>, \<lparr>state = 0, data = (0, 0)\<rparr>,
       \<lparr>state = 0, data = (0, 0)\<rparr>, \<lparr>state = 0, data = (0, 0)\<rparr>]"
    by code_simp
  have p: "probe_index 8 0 0 = 0" "probe_index 8 0 (Suc 0) = 0" "probe_index 8 0 (Suc (Suc 0)) = 1"
    by simp_all
  have h1: "(0 :: 64 word) = hash_fn (repr int_params 8) AND ucast (capacity one_key_map - 1)"
    by (simp add: cap int_params_def int_repr_def hash_fn_def)
  have h2: "\<forall>t\<le>Suc (Suc 0). unat (probe_index (capacity one_key_map) 0 t) < length (entries one_key_map)"
    unfolding cap es by (simp add: le_Suc_eq p)
  have h3: "\<forall>t<Suc (Suc 0). state (entries one_key_map ! unat (probe_index (capacity one_key_map) 0 t)) = 1 \<and>
              fst (data (entries one_key_map ! unat (probe_index (capacity one_key_map) 0 t))) \<noteq> 8"
    unfolding cap es by (simp add: less_Suc_eq p)
  have h4: "state (entries one_key_map ! unat (probe_index (capacity one_key_map) 0 (Suc (Suc 0)))) \<noteq> 1 \<or>
              fst (data (entries one_key_map ! unat (probe_index (capacity one_key_map) 0 (Suc (Suc 0))))) = 8"
    unfolding cap es by (simp add: p)
  show ?thesis
    using find_slot_examines_probe_sequence [OF h1 h2 h3 h4] by (simp add: cap p)
qed

text \<open>
  The claim as stated fails: in the map that holds key 0 in slot 0, the lookup of key 8
  (whose home slot is 0 as well) examines the indices 0, 0, 1, while the sequence of the
  specification is 0, 1.
\<close>

theorem find_slot_sequence_counterexample:
  "find_slot_trace (entries one_key_map) (capacity one_key_map) 8
     (hash_fn (repr int_params 8) AND ucast (capacity one_key_map - 1)) 0 []
     = Some ([0, 0, 1], Inr 1) \<and>
   map (spec_probe_index (capacity one_key_map)
     (hash_fn (repr int_params 8) AND ucast (capacity one_key_map - 1))) [0..<2] = [0, 1] \<and>
   state (entries one_key_map ! 1) \<noteq> 1"
  by code_simp

section \<open>The conversion to \<open>float\<close>\<close>

lemma float_of_u32_exact:
  assumes "unat w < 2 ^ 24"
  shows "float_of_u32 w = unat w"
proof -
  have "floorlog 2 (unat w) \<le> 24" using assms by (simp add: floorlog_le_iff)
  then have "floorlog 2 (unat w) - 24 = 0" by simp
  then show ?thesis by (simp add: float_of_u32_def)
qed

lemma float_of_u32_cases:
  "float_of_u32 w = (unat w div 2 ^ (floorlog 2 (unat w) - 24)) * 2 ^ (floorlog 2 (unat w) - 24) \<or>
   (unat w mod 2 ^ (floorlog 2 (unat w) - 24) \<noteq> 0 \<and>
    float_of_u32 w = (unat w div 2 ^ (floorlog 2 (unat w) - 24) + 1) * 2 ^ (floorlog 2 (unat w) - 24))"
proof (cases "unat w mod 2 ^ (floorlog 2 (unat w) - 24) = 0")
  case True
  then show ?thesis unfolding float_of_u32_def Let_def by simp
next
  case False
  then show ?thesis unfolding float_of_u32_def Let_def by simp
qed

lemma float_of_u32_le:
  assumes le: "unat w \<le> s * 2 ^ t" and s: "s < 2 ^ 24"
  shows "float_of_u32 w \<le> s * 2 ^ t"
proof -
  define n where "n = unat w"
  define e where "e = floorlog 2 n - 24"
  show ?thesis
  proof (cases "e = 0")
    case True
    then have "float_of_u32 w = n"
      by (simp add: float_of_u32_def n_def [symmetric] e_def [symmetric])
    then show ?thesis using le n_def by simp
  next
    case False
    then have fl: "floorlog 2 n = 24 + e" unfolding e_def by simp
    have n0: "0 < n"
    proof (rule gr0I)
      assume "n = 0"
      then have "floorlog 2 n = 0" by (simp add: floorlog_eq_zero_iff)
      then show False using fl by simp
    qed
    have "(2::nat) ^ (floorlog 2 n - 1) \<le> n" using floorlog_bounds [of n 2] n0 by simp
    then have lo: "(2::nat) ^ (23 + e) \<le> n" by (simp add: fl)
    have "(2::nat) ^ (23 + e) < 2 ^ 24 * 2 ^ t"
    proof -
      have "(2::nat) ^ (23 + e) \<le> s * 2 ^ t" using lo le n_def by simp
      also have "\<dots> < 2 ^ 24 * 2 ^ t" using s by simp
      finally show ?thesis .
    qed
    then have "(2::nat) ^ (23 + e) < 2 ^ (24 + t)" by (simp add: power_add)
    then have "23 + e < 24 + t" by simp
    then have et: "e \<le> t" by simp
    then obtain u where t: "t = e + u" using le_Suc_ex by blast
    have y: "s * 2 ^ t = (s * 2 ^ u) * 2 ^ e" by (simp add: t power_add ac_simps)
    have q: "n div 2 ^ e * 2 ^ e \<le> n" by simp
    consider "float_of_u32 w = n div 2 ^ e * 2 ^ e"
      | "n mod 2 ^ e \<noteq> 0" "float_of_u32 w = (n div 2 ^ e + 1) * 2 ^ e"
      using float_of_u32_cases [of w] unfolding n_def [symmetric] e_def [symmetric] by blast
    then show ?thesis
    proof cases
      case 1
      then have "float_of_u32 w \<le> n" using q by simp
      then show ?thesis using le n_def by simp
    next
      case 2
      have "n \<noteq> s * 2 ^ u * 2 ^ e" using 2(1) by auto
      then have "n < s * 2 ^ u * 2 ^ e" using le y n_def by simp
      then have "n div 2 ^ e < s * 2 ^ u" by (simp add: div_less_iff_less_mult)
      then have "(n div 2 ^ e + 1) * 2 ^ e \<le> s * 2 ^ u * 2 ^ e"
        by (intro mult_le_mono1) simp
      then show ?thesis unfolding 2(2) y .
    qed
  qed
qed

lemma float_of_u32_ge:
  assumes ge: "s * 2 ^ t \<le> unat w" and s: "s < 2 ^ 24"
  shows "s * 2 ^ t \<le> float_of_u32 w"
proof -
  define n where "n = unat w"
  define e where "e = floorlog 2 n - 24"
  have lower: "n div 2 ^ e * 2 ^ e \<le> float_of_u32 w"
    using float_of_u32_cases [of w] unfolding n_def [symmetric] e_def [symmetric] by auto
  show ?thesis
  proof (cases "e \<le> t")
    case True
    then obtain u where t: "t = e + u" using le_Suc_ex by blast
    have "s * 2 ^ u * 2 ^ e \<le> n" using ge n_def by (simp add: t power_add ac_simps)
    then have "s * 2 ^ u \<le> n div 2 ^ e" by (simp add: less_eq_div_iff_mult_less_eq)
    then have A: "s * 2 ^ u * 2 ^ e \<le> n div 2 ^ e * 2 ^ e" by (rule mult_le_mono1)
    have y: "s * 2 ^ t = s * 2 ^ u * 2 ^ e" by (simp add: t power_add ac_simps)
    show ?thesis unfolding y using A lower by (rule order_trans)
  next
    case False
    then have te: "t < e" by simp
    have fl: "floorlog 2 n = 24 + e" using te unfolding e_def by simp
    have n0: "0 < n"
    proof (rule gr0I)
      assume "n = 0"
      then have "floorlog 2 n = 0" by (simp add: floorlog_eq_zero_iff)
      then show False using fl te by simp
    qed
    have "(2::nat) ^ (floorlog 2 n - 1) \<le> n" using floorlog_bounds [of n 2] n0 by simp
    then have lo: "(2::nat) ^ (23 + e) \<le> n" by (simp add: fl)
    then have "(2::nat) ^ 23 * 2 ^ e \<le> n" by (simp add: power_add)
    then have "(2::nat) ^ 23 \<le> n div 2 ^ e" by (simp add: less_eq_div_iff_mult_less_eq)
    then have "(2::nat) ^ 23 * 2 ^ e \<le> n div 2 ^ e * 2 ^ e" by (rule mult_le_mono1)
    moreover have "s * 2 ^ t \<le> 2 ^ 23 * 2 ^ e"
    proof -
      have "s * 2 ^ t \<le> 2 ^ 24 * 2 ^ t" using s by simp
      also have "\<dots> = 2 ^ 23 * 2 ^ Suc t" by simp
      also have "\<dots> \<le> 2 ^ 23 * 2 ^ e" using te by (intro mult_le_mono2 power_increasing) simp_all
      finally show ?thesis .
    qed
    ultimately show ?thesis using lower by linarith
  qed
qed

lemma float_of_u32_pow2:
  assumes "unat w = 2 ^ k"
  shows "float_of_u32 w = 2 ^ k"
proof -
  have "float_of_u32 w \<le> 1 * 2 ^ k" using assms by (intro float_of_u32_le) simp_all
  moreover have "1 * 2 ^ k \<le> float_of_u32 w" using assms by (intro float_of_u32_ge) simp_all
  ultimately show ?thesis by simp
qed

lemma float_of_u32_0: "float_of_u32 0 = 0"
  by (simp add: float_of_u32_exact)

lemma float_of_u32_1: "float_of_u32 1 = 1"
  by (simp add: float_of_u32_exact)

section \<open>The load-factor test in exact arithmetic\<close>

lemma needs_grow_full:
  assumes cap: "unat (capacity m) = 2 ^ k" and full: "2 ^ k \<le> unat (m_size m + 1)"
  shows "needs_grow m"
proof -
  define a where "a = float_of_u32 (m_size m + 1)"
  have b: "float_of_u32 (capacity m) = 2 ^ k" using cap by (rule float_of_u32_pow2)
  have "1 * 2 ^ k \<le> a"
    unfolding a_def using full by (intro float_of_u32_ge) simp_all
  then have ge: "(2::nat) ^ k \<le> a" by simp
  have "(25165825::nat) * 2 ^ k < 33554432 * 2 ^ k" by simp
  also have "\<dots> \<le> 33554432 * a" using ge by simp
  finally have "(25165825::nat) * 2 ^ k < 33554432 * a" .
  then show ?thesis
    by (simp add: needs_grow_def float_div_gt_max_load_def b a_def [symmetric])
qed

lemma not_needs_grow_free:
  assumes "unat (capacity m) = 2 ^ k" and "\<not> needs_grow m"
  shows "unat (m_size m + 1) < 2 ^ k"
proof (rule ccontr)
  assume "\<not> unat (m_size m + 1) < 2 ^ k"
  then have "2 ^ k \<le> unat (m_size m + 1)" by simp
  then show False using needs_grow_full [OF assms(1)] assms(2) by simp
qed

lemma not_needs_grow_load:
  assumes cap: "unat (capacity m) = 2 ^ k" and load: "4 * unat (m_size m + 1) \<le> 3 * 2 ^ k"
  shows "\<not> needs_grow m"
proof -
  have b: "float_of_u32 (capacity m) = 2 ^ k" using cap by (rule float_of_u32_pow2)
  have "2 ^ 25 * float_of_u32 (m_size m + 1) \<le> (3 * 2 ^ 23 + 1) * (2::nat) ^ k"
  proof (cases "k < 2")
    case True
    then have "(2::nat) ^ k \<le> 2" using power_increasing [of k 1 "2::nat"] by simp
    then have "unat (m_size m + 1) < 2 ^ 24" using load by simp
    then have "float_of_u32 (m_size m + 1) = unat (m_size m + 1)" by (rule float_of_u32_exact)
    then show ?thesis using load by simp
  next
    case False
    then have "2 \<le> k" by simp
    then obtain j where "k = 2 + j" using le_Suc_ex by blast
    then have k: "k = Suc (Suc j)" by simp
    have "unat (m_size m + 1) \<le> 3 * 2 ^ j" using load by (simp add: k)
    then have "float_of_u32 (m_size m + 1) \<le> 3 * 2 ^ j" by (intro float_of_u32_le) simp_all
    then show ?thesis by (simp add: k)
  qed
  then show ?thesis by (simp add: needs_grow_def float_div_gt_max_load_def b)
qed

lemma not_needs_grow_exact:
  assumes cap: "unat (capacity m) = 2 ^ k" and small: "unat (m_size m + 1) < 2 ^ 24"
    and no: "\<not> needs_grow m"
  shows "4 * unat (m_size m + 1) \<le> 3 * 2 ^ k"
proof -
  define n where "n = unat (m_size m + 1)"
  have b: "float_of_u32 (capacity m) = 2 ^ k" using cap by (rule float_of_u32_pow2)
  have a: "float_of_u32 (m_size m + 1) = n" using small unfolding n_def by (rule float_of_u32_exact)
  have le: "2 ^ 25 * n \<le> (3 * 2 ^ 23 + 1) * (2::nat) ^ k"
    using no by (simp add: needs_grow_def float_div_gt_max_load_def a b)
  have n: "n < 2 ^ 24" using small n_def by simp
  have "k = 0 \<or> k = 1 \<or> (\<exists>j. k = Suc (Suc j) \<and> j \<le> 22) \<or> 25 \<le> k"
    by presburger
  then consider "k = 0" | "k = 1" | j where "k = Suc (Suc j)" "j \<le> 22" | "25 \<le> k"
    by blast
  then have "4 * n \<le> 3 * 2 ^ k"
  proof cases
    case 1
    then show ?thesis using le by simp
  next
    case 2
    then show ?thesis using le by simp
  next
    case 3
    have "(2::nat) ^ j \<le> 2 ^ 22" using 3(2) by (intro power_increasing) simp_all
    then show ?thesis using le by (simp add: 3(1))
  next
    case 4
    then have "(2::nat) ^ 25 \<le> 2 ^ k" by (intro power_increasing) simp_all
    then show ?thesis using n by simp
  qed
  then show ?thesis unfolding n_def .
qed

section \<open>Moving\<close>

lemma find_slot_no_table:
  "entries m = [] \<Longrightarrow> find_slot P m key = Some (Inl OutOfBounds)"
  unfolding find_slot_def Let_def by (subst find_slot_loop.simps) simp

lemma index_or_insert_no_table:
  assumes "entries m = []" "capacity m = 0" "m_size m = 0"
  shows "index_or_insert (Suc d) P key m = Some (Inl OutOfBounds)"
proof -
  have g: "needs_grow m"
    using assms by (simp add: needs_grow_def float_div_gt_max_load_def float_of_u32_0 float_of_u32_1)
  have "grow (Suc d) P m = Some (Inr (m\<lparr>capacity := 0, entries := [], m_size := 0\<rparr>))"
    using assms by (simp add: new_entries_def)
  then show ?thesis
    using g by (simp add: find_slot_no_table del: grow.simps)
qed

text \<open>
  Claim C9, as the code has it. After \<open>dst = move(src)\<close> the destination is in the state
  the source had: its size is the source's size before the move and every lookup gives
  what it gave on the source. The source has size 0, capacity 0 and no table; \<open>size()\<close>
  and \<open>empty()\<close> answer as for an empty map and \<open>clear()\<close> makes it a fresh map, but
  \<open>find\<close> and \<open>operator[]\<close> index the table it no longer has.
\<close>

theorem move_assign_transfers_table:
  "fst (move_assign this other) = other \<and>
   size_map (fst (move_assign this other)) = size_map other \<and>
   find_map P (fst (move_assign this other)) key = find_map P other key \<and>
   find_value P (fst (move_assign this other)) key = find_value P other key \<and>
   size_map (snd (move_assign this other)) = 0 \<and>
   empty_map (snd (move_assign this other)) \<and>
   capacity (snd (move_assign this other)) = 0 \<and>
   entries (snd (move_assign this other)) = [] \<and>
   clear_map P (snd (move_assign this other)) = construct_map P \<and>
   find_map P (snd (move_assign this other)) key = Some (Inl OutOfBounds) \<and>
   index_or_insert (Suc d) P key (snd (move_assign this other)) = Some (Inl OutOfBounds)"
proof -
  have dst: "fst (move_assign this other) = other" by (simp add: move_assign_def)
  have src: "entries (snd (move_assign this other)) = []"
    "capacity (snd (move_assign this other)) = 0"
    "m_size (snd (move_assign this other)) = 0"
    by (simp_all add: move_assign_def)
  have f: "find_map P (snd (move_assign this other)) key = Some (Inl OutOfBounds)"
    by (simp add: find_map_def find_slot_no_table [OF src(1)])
  show ?thesis
    unfolding dst using src f index_or_insert_no_table [OF src]
    by (simp add: size_map_def empty_map_def clear_eq_construct del: index_or_insert.simps)
qed

text \<open>
  The claim as stated fails: \<open>find\<close> on a moved-from \<open>map<int, int>\<close> reads outside
  its (null) table, while on a freshly constructed map it returns \<open>nullptr\<close>.
\<close>

theorem moved_from_find_counterexample:
  "find_map int_params (snd (move_assign (construct_map int_params) one_key_map)) 0
     = Some (Inl OutOfBounds) \<and>
   find_map int_params (construct_map int_params) 0 = Some (Inr None)"
proof -
  have "find_map int_params (snd (move_assign (construct_map int_params) one_key_map)) 0
     = Some (Inl OutOfBounds)"
    by (simp add: find_map_def find_slot_no_table move_assign_def)
  moreover have "find_map int_params (construct_map int_params) 0 = Some (Inr None)"
    by code_simp
  ultimately show ?thesis by simp
qed

section \<open>Arithmetic of the machine integers\<close>

lemma unat_pow2_32:
  assumes "k < 32"
  shows "unat ((2::32 word) ^ k) = 2 ^ k"
proof -
  have "(2::32 word) ^ k = of_nat (2 ^ k)" by simp
  then have "unat ((2::32 word) ^ k) = 2 ^ k mod 2 ^ 32" by (simp only: unat_of_nat) simp
  moreover have "(2::nat) ^ k < 2 ^ 32" using assms by (intro power_strict_increasing) simp_all
  ultimately show ?thesis by simp
qed

lemma unat_double_32:
  assumes "unat (x::32 word) < 2 ^ 31"
  shows "unat (x * 2) = 2 * unat x"
proof -
  have "unat (x * 2) = (unat x * 2) mod 2 ^ 32" by (simp add: unat_word_ariths)
  then show ?thesis using assms by simp
qed

lemma unat_succ_32:
  assumes "unat (x::32 word) < unat (c :: 32 word)"
  shows "unat (x + 1) = unat x + 1"
proof -
  have "unat c < 2 ^ 32" using unsigned_less [of c] by simp
  then have "unat x + 1 < 2 ^ 32" using assms by simp
  moreover have "unat (x + 1) = (unat x + 1) mod 2 ^ 32" by (simp add: unat_word_ariths)
  ultimately show ?thesis by simp
qed

lemma unat_of_nat_64:
  assumes "i < 2 ^ 32"
  shows "unat (of_nat i :: 64 word) = i"
proof -
  have "i < 2 ^ 64" using assms by simp
  then show ?thesis by (simp add: unat_of_nat)
qed

lemma of_nat_unat_64: "of_nat (unat (w :: 64 word)) = w"
  by simp

lemma exists_free_slot:
  assumes "length (filter P xs) < length xs"
  shows "\<exists>i<length xs. \<not> P (xs ! i)"
  using assms by (metis filter_id_conv in_set_conv_nth less_not_refl)

lemma is_pow2D:
  assumes "is_pow2 c"
  obtains k where "k < 32" "c = 2 ^ k" "unat c = 2 ^ k"
  using assms unat_pow2_32 unfolding is_pow2_def by auto

section \<open>What the loop returns\<close>

lemma find_slot_loop_result:
  assumes "find_slot_loop es cap key index i = Some y"
  shows "\<forall>r. y = Inr r \<longrightarrow>
           unat r < length es \<and> (state (es ! unat r) \<noteq> 1 \<or> fst (data (es ! unat r)) = key)"
  using assms
proof (induction rule: find_slot_loop.raw_induct [rotated 1, consumes 1])
  case (1 f es cap key index i y)
  then show ?case by (auto split: if_splits)
qed

lemma find_slot_loop_transfer:
  assumes "find_slot_loop es cap key index i = Some y"
  shows "length es' = length es \<longrightarrow>
         (\<forall>p<length es. state (es ! p) = 1 \<and> fst (data (es ! p)) \<noteq> key \<longrightarrow>
                          state (es' ! p) = 1 \<and> fst (data (es' ! p)) \<noteq> key) \<longrightarrow>
         (\<forall>r. y = Inr r \<longrightarrow> state (es' ! unat r) \<noteq> 1 \<or> fst (data (es' ! unat r)) = key) \<longrightarrow>
         find_slot_loop es' cap key index i = Some y"
  using assms
proof (induction rule: find_slot_loop.raw_induct [rotated 1, consumes 1])
  case (1 f es cap key index i y)
  show ?case
  proof (intro impI)
    assume len: "length es' = length es"
      and busy: "\<forall>p<length es. state (es ! p) = 1 \<and> fst (data (es ! p)) \<noteq> key \<longrightarrow>
                          state (es' ! p) = 1 \<and> fst (data (es' ! p)) \<noteq> key"
      and stop: "\<forall>r. y = Inr r \<longrightarrow> state (es' ! unat r) \<noteq> 1 \<or> fst (data (es' ! unat r)) = key"
    show "find_slot_loop es' cap key index i = Some y"
    proof (cases "length es \<le> unat index")
      case True
      then show ?thesis using 1(2) len by (subst find_slot_loop.simps) simp
    next
      case inb: False
      show ?thesis
      proof (cases "state (es ! unat index) \<noteq> 1 \<or> fst (data (es ! unat index)) = key")
        case True
        then have "y = Inr index" using 1(2) inb by simp
        then show ?thesis using stop inb len by (subst find_slot_loop.simps) auto
      next
        case False
        then have rec: "f es cap key ((index + i) AND ucast (cap - 1)) (i + 1) = Some y"
          using 1(2) inb by simp
        have "find_slot_loop es' cap key ((index + i) AND ucast (cap - 1)) (i + 1) = Some y"
          using 1(1) [OF rec] len busy stop by blast
        moreover have "state (es' ! unat index) = 1 \<and> fst (data (es' ! unat index)) \<noteq> key"
          using busy False inb by auto
        ultimately show ?thesis using inb len by (subst find_slot_loop.simps) simp
      qed
    qed
  qed
qed

lemma find_slot_result:
  assumes "find_slot P m key = Some (Inr r)"
  shows "unat r < length (entries m)"
    and "state (entries m ! unat r) \<noteq> 1 \<or> fst (data (entries m ! unat r)) = key"
  using find_slot_loop_result [of "entries m" "capacity m" key _ 0 "Inr r"] assms
  unfolding find_slot_def Let_def by auto

lemma find_slot_transfer:
  assumes "find_slot P m key = Some y"
    and "capacity m' = capacity m"
    and "length (entries m') = length (entries m)"
    and "\<And>p. p < length (entries m) \<Longrightarrow> state (entries m ! p) = 1 \<Longrightarrow>
           fst (data (entries m ! p)) \<noteq> key \<Longrightarrow>
           state (entries m' ! p) = 1 \<and> fst (data (entries m' ! p)) \<noteq> key"
    and "\<And>r. y = Inr r \<Longrightarrow>
           state (entries m' ! unat r) \<noteq> 1 \<or> fst (data (entries m' ! unat r)) = key"
  shows "find_slot P m' key = Some y"
proof -
  have "find_slot_loop (entries m) (capacity m) key
          (hash_fn (repr P key) AND ucast (capacity m - 1)) 0 = Some y"
    using assms(1) unfolding find_slot_def Let_def .
  from find_slot_loop_transfer [OF this, of "entries m'"]
  have "find_slot_loop (entries m') (capacity m) key
          (hash_fn (repr P key) AND ucast (capacity m - 1)) 0 = Some y"
    using assms(3,4,5) by blast
  then show ?thesis unfolding find_slot_def Let_def assms(2) .
qed

section \<open>Lookups in a well-formed map\<close>

lemma find_slot_total:
  assumes cap: "capacity m = 2 ^ k" and k: "k < 32"
    and len: "length (entries m) = 2 ^ k"
    and stop: "s < length (entries m)"
      "state (entries m ! s) \<noteq> 1 \<or> fst (data (entries m ! s)) = key"
  shows "\<exists>r. find_slot P m key = Some (Inr r)"
proof -
  define home where "home = hash_fn (repr P key) AND ucast (capacity m - 1)"
  define T where "T n \<longleftrightarrow> (state (entries m ! unat (probe_index (capacity m) home n)) \<noteq> 1 \<or>
      fst (data (entries m ! unat (probe_index (capacity m) home n))) = key)" for n
  have inb: "unat (probe_index (capacity m) home t) < length (entries m)" for t
  proof (cases t)
    case 0
    have "unat home = unat (hash_fn (repr P key)) mod 2 ^ k"
      unfolding home_def cap using k by (rule unat_home)
    then show ?thesis using 0 len by simp
  next
    case (Suc t')
    show ?thesis unfolding Suc cap len using k by (rule probe_index_bound)
  qed
  obtain n0 where "unat (probe_index (2 ^ k) home (Suc n0)) = s"
    using probe_index_covers [OF k, of s home] stop(1) len by auto
  then have "T (Suc n0)" using stop(2) unfolding T_def cap by simp
  then have ex: "\<exists>n. T n" ..
  define n where "n = (LEAST n. T n)"
  have Tn: "T n" unfolding n_def using ex by (rule LeastI_ex)
  have notT: "\<not> T t" if "t < n" for t using that not_less_Least unfolding n_def by blast
  have "find_slot_loop (entries m) (capacity m) key (probe_index (capacity m) home 0) (of_nat 0)
        = Some (Inr (probe_index (capacity m) home n))"
  proof (rule find_slot_loop_probe)
    show "0 \<le> n" by simp
    show "unat (probe_index (capacity m) home t) < length (entries m)" for t by (rule inb)
    show "state (entries m ! unat (probe_index (capacity m) home t)) = 1 \<and>
           fst (data (entries m ! unat (probe_index (capacity m) home t))) \<noteq> key"
      if "t < n" for t using notT [OF that] unfolding T_def by simp
    show "state (entries m ! unat (probe_index (capacity m) home n)) \<noteq> 1 \<or>
           fst (data (entries m ! unat (probe_index (capacity m) home n))) = key"
      using Tn unfolding T_def .
  qed
  then show ?thesis unfolding find_slot_def Let_def home_def by simp
qed

lemma table_ok_free_slot:
  assumes "table_ok P m"
  shows "\<exists>s<length (entries m). state (entries m ! s) \<noteq> 1"
proof -
  have "length (filter (\<lambda>e. state e = 1) (entries m)) < length (entries m)"
    using assms unfolding table_ok_def by simp
  then show ?thesis by (rule exists_free_slot)
qed

lemma table_ok_find_slot:
  assumes "table_ok P m"
  obtains r where "find_slot P m key = Some (Inr r)" "unat r < length (entries m)"
    "state (entries m ! unat r) \<noteq> 1 \<or> fst (data (entries m ! unat r)) = key"
proof -
  obtain k where k: "k < 32" "capacity m = 2 ^ k" "unat (capacity m) = 2 ^ k"
    using assms is_pow2D unfolding table_ok_def by blast
  have len: "length (entries m) = 2 ^ k" using assms k(3) unfolding table_ok_def by simp
  obtain s where "s < length (entries m)" "state (entries m ! s) \<noteq> 1"
    using table_ok_free_slot [OF assms] by blast
  then obtain r where r: "find_slot P m key = Some (Inr r)"
    using find_slot_total [OF k(2) k(1) len, of s key P] by blast
  show thesis using that [OF r] find_slot_result [OF r] by blast
qed

lemma table_ok_present:
  assumes "table_ok P m" and "i < length (entries m)" and "state (entries m ! i) = 1"
  shows "find_slot P m (fst (data (entries m ! i))) = Some (Inr (of_nat i))"
  using assms unfolding table_ok_def by simp

lemma table_ok_length: "table_ok P m \<Longrightarrow> length (entries m) < 2 ^ 32"
  using unsigned_less [of "capacity m", where 'a = nat] unfolding table_ok_def by simp

lemma table_ok_slot_unique:
  assumes ok: "table_ok P m"
    and i: "i < length (entries m)" "state (entries m ! i) = 1"
    and j: "j < length (entries m)" "state (entries m ! j) = 1"
    and eq: "fst (data (entries m ! i)) = fst (data (entries m ! j))"
  shows "i = j"
proof -
  have "(of_nat i :: 64 word) = of_nat j"
    using table_ok_present [OF ok i] table_ok_present [OF ok j] eq by simp
  then have "unat (of_nat i :: 64 word) = unat (of_nat j :: 64 word)" by simp
  then show ?thesis
    using table_ok_length [OF ok] i(1) j(1) by (simp add: unat_of_nat_64)
qed

lemma find_map_present:
  assumes ok: "table_ok P m" and i: "i < length (entries m)" "state (entries m ! i) = 1"
  shows "find_map P m (fst (data (entries m ! i))) = Some (Inr (Some (of_nat i)))"
proof -
  have "unat (of_nat i :: 64 word) = i"
    using table_ok_length [OF ok] i(1) by (simp add: unat_of_nat_64)
  then show ?thesis
    using table_ok_present [OF ok i] i(2) by (simp add: find_map_def)
qed

lemma find_map_absent:
  assumes ok: "table_ok P m"
    and absent: "\<And>i. i < length (entries m) \<Longrightarrow> state (entries m ! i) = 1 \<Longrightarrow>
                   fst (data (entries m ! i)) \<noteq> key"
  shows "find_map P m key = Some (Inr None)"
proof -
  obtain r where r: "find_slot P m key = Some (Inr r)" "unat r < length (entries m)"
    "state (entries m ! unat r) \<noteq> 1 \<or> fst (data (entries m ! unat r)) = key"
    using table_ok_find_slot [OF ok] by blast
  then have "state (entries m ! unat r) \<noteq> 1" using absent by blast
  then show ?thesis using r(1) by (simp add: find_map_def)
qed

section \<open>Lookup of absent and present keys\<close>

lemma content_iff:
  "(k, v) \<in> content m \<longleftrightarrow>
     (\<exists>i<length (entries m). state (entries m ! i) = 1 \<and> data (entries m ! i) = (k, v))"
  unfolding content_def by (auto simp: in_set_conv_nth image_iff)

lemma key_in_content_iff:
  "k \<in> fst ` content m \<longleftrightarrow>
     (\<exists>i<length (entries m). state (entries m ! i) = 1 \<and> fst (data (entries m ! i)) = k)"
proof
  assume "k \<in> fst ` content m"
  then obtain v where "(k, v) \<in> content m" by auto
  then show "\<exists>i<length (entries m). state (entries m ! i) = 1 \<and> fst (data (entries m ! i)) = k"
    unfolding content_iff by auto
next
  assume "\<exists>i<length (entries m). state (entries m ! i) = 1 \<and> fst (data (entries m ! i)) = k"
  then obtain i where i: "i < length (entries m)" "state (entries m ! i) = 1"
    "fst (data (entries m ! i)) = k" by blast
  then have "(k, snd (data (entries m ! i))) \<in> content m"
    unfolding content_iff by (intro exI [of _ i]) auto
  then show "k \<in> fst ` content m" by force
qed

text \<open>
  Claim C7. In a well-formed map, \<open>find\<close> of a key that no occupied slot holds (a key
  never inserted and equal to no inserted key) returns \<open>nullptr\<close>, and the map after the
  call is the map before it: size, capacity and every slot are unchanged.
\<close>

theorem find_absent_key_returns_null:
  assumes "table_ok P m" and "key \<notin> fst ` content m"
  shows "find_map P m key = Some (Inr None) \<and>
         find_mut P m key = Some (Inr (None, m))"
proof -
  have absent: "fst (data (entries m ! i)) \<noteq> key"
    if "i < length (entries m)" "state (entries m ! i) = 1" for i
    using assms(2) that unfolding key_in_content_iff by blast
  obtain r where r: "find_slot P m key = Some (Inr r)" "unat r < length (entries m)"
    using table_ok_find_slot [OF assms(1)] by blast
  have a: "find_map P m key = Some (Inr None)"
    using assms(1) absent by (rule find_map_absent)
  then have b: "find_mut P m key = Some (Inr (None, m))"
    using r(1) by (auto simp: find_map_def find_mut_def split: if_splits)
  show ?thesis using a b by simp
qed

theorem find_absent_key_returns_null_witness:
  "find_map int_params one_key_map 8 = Some (Inr None) \<and>
   find_mut int_params one_key_map 8 = Some (Inr (None, one_key_map))"
proof -
  have h1: "table_ok int_params one_key_map" by code_simp
  have "content one_key_map = {(0, 100)}"
    unfolding content_def by code_simp
  then have h2: "8 \<notin> fst ` content one_key_map" by simp
  show ?thesis using find_absent_key_returns_null [OF h1 h2] by simp
qed

text \<open>
  The claim as stated fails for the source of a move: after
  \<open>shared::map<int, int> dst(std::move(src))\<close> on a fresh \<open>src\<close>, no key was ever inserted
  into \<open>src\<close> and it holds none, but \<open>src.find(5)\<close>, in either overload, does not return
  \<open>nullptr\<close>: \<open>find_slot\<close> reads \<open>entries[index]\<close> of the table that \<open>src\<close> no longer owns.
\<close>

theorem moved_from_absent_key_counterexample:
  "content (snd (move_from (construct_map int_params))) = {} \<and>
   find_map int_params (snd (move_from (construct_map int_params))) 5
     = Some (Inl OutOfBounds) \<and>
   find_mut int_params (snd (move_from (construct_map int_params))) 5
     = Some (Inl OutOfBounds)"
proof -
  have e: "entries (snd (move_from (construct_map int_params))) = []"
    by (simp add: move_from_def)
  have "content (snd (move_from (construct_map int_params))) = {}"
    unfolding content_def e by simp
  moreover have "find_map int_params (snd (move_from (construct_map int_params))) 5
     = Some (Inl OutOfBounds)"
    by (simp add: find_map_def find_slot_no_table [OF e])
  moreover have "find_mut int_params (snd (move_from (construct_map int_params))) 5
     = Some (Inl OutOfBounds)"
    by (simp add: find_mut_def find_slot_no_table [OF e])
  ultimately show ?thesis by simp
qed


text \<open>
  Claim C10. In a well-formed map that holds \<open>key\<close> with value \<open>v\<close>, if
  \<open>(size() + 1) / capacity \<le> 0.75\<close> then the growth test of \<open>operator[]\<close> does not fire,
  and \<open>operator[]\<close> returns a reference to the slot that holds the key and its value \<open>v\<close>
  and leaves the map as it was: size, capacity and every slot are unchanged.
\<close>

theorem index_existing_key_is_lookup:
  assumes ok: "table_ok P m" and present: "(key, v) \<in> content m"
    and load: "4 * (unat (m_size m) + 1) \<le> 3 * unat (capacity m)"
  shows "\<not> needs_grow m \<and>
         (\<exists>index. index_or_insert d P key m = Some (Inr (index, m)) \<and>
            unat index < length (entries m) \<and>
            state (entries m ! unat index) = 1 \<and>
            fst (data (entries m ! unat index)) = key \<and>
            second_at m index = v)"
proof -
  obtain k where k: "k < 32" "capacity m = 2 ^ k" "unat (capacity m) = 2 ^ k"
    using ok is_pow2D unfolding table_ok_def by blast
  have "unat (m_size m) < unat (capacity m)" using ok unfolding table_ok_def by simp
  then have "unat (m_size m + 1) = unat (m_size m) + 1" by (rule unat_succ_32)
  then have "4 * unat (m_size m + 1) \<le> 3 * 2 ^ k" using load k(3) by simp
  then have ng: "\<not> needs_grow m" using k(3) by (intro not_needs_grow_load)
  obtain i where i: "i < length (entries m)" "state (entries m ! i) = 1"
    "data (entries m ! i) = (key, v)"
    using present unfolding content_iff by blast
  have key: "fst (data (entries m ! i)) = key" using i(3) by simp
  have fs: "find_slot P m key = Some (Inr (of_nat i))"
    using table_ok_present [OF ok i(1,2)] key by simp
  have u: "unat (of_nat i :: 64 word) = i"
    using table_ok_length [OF ok] i(1) by (simp add: unat_of_nat_64)
  have "index_or_insert d P key m = Some (Inr (of_nat i, m))"
    using ng fs u i(2) by simp
  then show ?thesis using ng u i by (auto simp: second_at_def)
qed

theorem index_existing_key_is_lookup_witness:
  "\<not> needs_grow one_key_map \<and>
   index_or_insert 0 int_params 0 one_key_map = Some (Inr (0, one_key_map)) \<and>
   second_at one_key_map 0 = 100"
proof -
  have h1: "table_ok int_params one_key_map" by code_simp
  have "content one_key_map = {(0, 100)}"
    unfolding content_def by code_simp
  then have h2: "(0, 100) \<in> content one_key_map" by simp
  have h3: "4 * (unat (m_size one_key_map) + 1) \<le> 3 * unat (capacity one_key_map)"
    by (simp add: one_key_map_def)
  have es: "entries one_key_map ! 0 = \<lparr>state = 1, data = (0, 100)\<rparr>" by code_simp
  obtain index where ix: "index_or_insert 0 int_params 0 one_key_map = Some (Inr (index, one_key_map))"
    "unat index < length (entries one_key_map)"
    "state (entries one_key_map ! unat index) = 1"
    using index_existing_key_is_lookup [OF h1 h2 h3, of 0] by blast
  have "length (entries one_key_map) = 8" by code_simp
  moreover have "state (entries one_key_map ! j) \<noteq> 1" if "0 < j" "j < 8" for j
  proof -
    have "j \<in> {1, 2, 3, 4, 5, 6, 7}" using that by auto
    moreover have "\<forall>j\<in>{1, 2, 3, 4, 5, 6, 7}. state (entries one_key_map ! j) \<noteq> 1" by code_simp
    ultimately show ?thesis by blast
  qed
  ultimately have "unat index = 0" using ix(2,3) by (metis neq0_conv)
  then have "index = 0" by (simp add: unat_eq_0)
  then show ?thesis
    using ix(1) index_existing_key_is_lookup [OF h1 h2 h3, of 0] es by (simp add: second_at_def)
qed

section \<open>Writing a slot\<close>

lemma index_or_insert_eq:
  "index_or_insert d P key m =
     bind_res (if needs_grow m then grow d P m else Some (Inr m)) (place_key P key)"
  by (simp add: place_key_def [abs_def] del: grow.simps)

lemma length_filter_update_new:
  "i < length xs \<Longrightarrow> \<not> Q (xs ! i) \<Longrightarrow> Q x \<Longrightarrow>
     length (filter Q (xs[i := x])) = Suc (length (filter Q xs))"
proof (induction xs arbitrary: i)
  case Nil
  then show ?case by simp
next
  case (Cons a xs)
  then show ?case by (cases i) auto
qed

lemma length_filter_update_same:
  "i < length xs \<Longrightarrow> Q x = Q (xs ! i) \<Longrightarrow>
     length (filter Q (xs[i := x])) = length (filter Q xs)"
proof (induction xs arbitrary: i)
  case Nil
  then show ?case by simp
next
  case (Cons a xs)
  then show ?case by (cases i) auto
qed

lemma table_ok_insert:
  assumes ok: "table_ok P m"
    and r: "find_slot P m key = Some (Inr r)"
    and free: "state (entries m ! unat r) \<noteq> 1"
    and room: "unat (m_size m) + 1 < unat (capacity m)"
  shows "table_ok P (m\<lparr>entries := (entries m)[unat r := insert_entry key v (entries m ! unat r)],
                        m_size := m_size m + 1\<rparr>)"
proof -
  define es where "es = entries m"
  define es' where "es' = es[unat r := insert_entry key v (es ! unat r)]"
  define m' where "m' = m\<lparr>entries := es', m_size := m_size m + 1\<rparr>"
  have rb: "unat r < length es" using find_slot_result(1) [OF r] es_def by simp
  have len: "length es' = length es" unfolding es'_def by simp
  have new: "state (es' ! unat r) = 1" "data (es' ! unat r) = (key, v)"
    using rb unfolding es'_def by (simp_all add: insert_entry_def)
  have old: "es' ! p = es ! p" if "p \<noteq> unat r" for p
    using that unfolding es'_def by simp
  have m': "entries m' = es'" "capacity m' = capacity m" "m_size m' = m_size m + 1"
    unfolding m'_def by simp_all
  have size: "unat (m_size m + 1) = unat (m_size m) + 1"
    using room by (intro unat_succ_32 [of _ "capacity m"]) simp
  have count: "length (filter (\<lambda>e. state e = 1) es') = Suc (length (filter (\<lambda>e. state e = 1) es))"
    unfolding es'_def using rb free es_def
    by (intro length_filter_update_new) (simp_all add: insert_entry_def)
  have reach: "find_slot P m' (fst (data (es' ! i))) = Some (Inr (of_nat i))"
    if i: "i < length es'" "state (es' ! i) = 1" for i
  proof (cases "i = unat r")
    case True
    have "find_slot P m' key = Some (Inr r)"
    proof (rule find_slot_transfer [OF r])
      show "capacity m' = capacity m" by (rule m'(2))
      show "length (entries m') = length (entries m)" using len m'(1) es_def by simp
      show "state (entries m' ! p) = 1 \<and> fst (data (entries m' ! p)) \<noteq> key"
        if "p < length (entries m)" "state (entries m ! p) = 1" "fst (data (entries m ! p)) \<noteq> key"
        for p
      proof -
        have "p \<noteq> unat r" using that(2) free by auto
        then show ?thesis using that old m'(1) es_def by simp
      qed
      show "state (entries m' ! unat r') \<noteq> 1 \<or> fst (data (entries m' ! unat r')) = key"
        if "Inr r = Inr r'" for r' :: "64 word"
        using that new m'(1) by simp
    qed
    then show ?thesis using True new by simp
  next
    case False
    then have same: "es' ! i = es ! i" by (rule old)
    have il: "i < length (entries m)" and io: "state (entries m ! i) = 1"
      using i same len es_def by simp_all
    have fs: "find_slot P m (fst (data (entries m ! i))) = Some (Inr (of_nat i))"
      using ok il io by (rule table_ok_present)
    have u: "unat (of_nat i :: 64 word) = i"
      using table_ok_length [OF ok] il by (simp add: unat_of_nat_64)
    have "find_slot P m' (fst (data (entries m ! i))) = Some (Inr (of_nat i))"
    proof (rule find_slot_transfer [OF fs])
      show "capacity m' = capacity m" by (rule m'(2))
      show "length (entries m') = length (entries m)" using len m'(1) es_def by simp
      show "state (entries m' ! p) = 1 \<and> fst (data (entries m' ! p)) \<noteq> fst (data (entries m ! i))"
        if "p < length (entries m)" "state (entries m ! p) = 1"
          "fst (data (entries m ! p)) \<noteq> fst (data (entries m ! i))" for p
      proof -
        have "p \<noteq> unat r" using that(2) free by auto
        then show ?thesis using that old m'(1) es_def by simp
      qed
      show "state (entries m' ! unat r') \<noteq> 1 \<or>
            fst (data (entries m' ! unat r')) = fst (data (entries m ! i))"
        if "Inr (of_nat i :: 64 word) = Inr r'" for r' :: "64 word"
        using that u same m'(1) es_def by auto
    qed
    then show ?thesis using same es_def by simp
  qed
  have "table_ok P m'"
    unfolding table_ok_def m'
    using ok size count room len reach unfolding table_ok_def es_def [symmetric]
    by simp
  then show ?thesis unfolding m'_def es'_def es_def .
qed

lemma content_insert:
  assumes rb: "unat r < length (entries m)" and free: "state (entries m ! unat r) \<noteq> 1"
  shows "content (m\<lparr>entries := (entries m)[unat r := insert_entry key v (entries m ! unat r)],
                     m_size := s\<rparr>)
         = insert (key, v) (content m)"
proof -
  define m' where "m' = m\<lparr>entries := (entries m)[unat r := insert_entry key v (entries m ! unat r)],
                     m_size := s\<rparr>"
  have es': "entries m' = (entries m)[unat r := insert_entry key v (entries m ! unat r)]"
    unfolding m'_def by simp
  have "(k', v') \<in> content m' \<longleftrightarrow> (k', v') \<in> insert (key, v) (content m)" for k' v'
  proof
    assume "(k', v') \<in> content m'"
    then obtain i where i: "i < length (entries m)"
      "state (entries m' ! i) = 1" "data (entries m' ! i) = (k', v')"
      unfolding content_iff es' by auto
    show "(k', v') \<in> insert (key, v) (content m)"
    proof (cases "i = unat r")
      case True
      then show ?thesis using i rb unfolding es' by (simp add: insert_entry_def)
    next
      case False
      then have "(k', v') \<in> content m" using i unfolding content_iff es' by auto
      then show ?thesis by simp
    qed
  next
    assume "(k', v') \<in> insert (key, v) (content m)"
    then consider "(k', v') = (key, v)" | "(k', v') \<in> content m" by blast
    then show "(k', v') \<in> content m'"
    proof cases
      case 1
      then show ?thesis unfolding content_iff es' using rb
        by (intro exI [of _ "unat r"]) (simp add: insert_entry_def)
    next
      case 2
      then obtain i where i: "i < length (entries m)" "state (entries m ! i) = 1"
        "data (entries m ! i) = (k', v')" unfolding content_iff by blast
      then have "i \<noteq> unat r" using free by auto
      then show ?thesis unfolding content_iff es' using i by (intro exI [of _ i]) simp
    qed
  qed
  then have "content m' = insert (key, v) (content m)" by auto
  then show ?thesis unfolding m'_def .
qed

lemma table_ok_assign:
  assumes ok: "table_ok P m" and ib: "unat index < length (entries m)"
  shows "table_ok P (assign_second index val m)"
proof -
  define m' where "m' = assign_second index val m"
  have m': "capacity m' = capacity m" "m_size m' = m_size m"
    "length (entries m') = length (entries m)"
    unfolding m'_def assign_second_def by simp_all
  have same: "state (entries m' ! p) = state (entries m ! p) \<and>
              fst (data (entries m' ! p)) = fst (data (entries m ! p))"
    if "p < length (entries m)" for p
    using that unfolding m'_def assign_second_def by (cases "p = unat index") simp_all
  have count: "length (filter (\<lambda>e. state e = 1) (entries m'))
               = length (filter (\<lambda>e. state e = 1) (entries m))"
    unfolding m'_def assign_second_def using ib
    by (simp add: length_filter_update_same)
  have reach: "find_slot P m' (fst (data (entries m' ! i))) = Some (Inr (of_nat i))"
    if i: "i < length (entries m')" "state (entries m' ! i) = 1" for i
  proof -
    have il: "i < length (entries m)" and io: "state (entries m ! i) = 1"
      using i m'(3) same by simp_all
    have fs: "find_slot P m (fst (data (entries m ! i))) = Some (Inr (of_nat i))"
      using ok il io by (rule table_ok_present)
    have u: "unat (of_nat i :: 64 word) = i"
      using table_ok_length [OF ok] il by (simp add: unat_of_nat_64)
    have "find_slot P m' (fst (data (entries m ! i))) = Some (Inr (of_nat i))"
    proof (rule find_slot_transfer [OF fs])
      show "capacity m' = capacity m" by (rule m'(1))
      show "length (entries m') = length (entries m)" by (rule m'(3))
      show "state (entries m' ! p) = 1 \<and> fst (data (entries m' ! p)) \<noteq> fst (data (entries m ! i))"
        if "p < length (entries m)" "state (entries m ! p) = 1"
          "fst (data (entries m ! p)) \<noteq> fst (data (entries m ! i))" for p
        using that same by simp
      show "state (entries m' ! unat r') \<noteq> 1 \<or>
            fst (data (entries m' ! unat r')) = fst (data (entries m ! i))"
        if "Inr (of_nat i :: 64 word) = Inr r'" for r' :: "64 word"
        using that u same [OF il] by auto
    qed
    then show ?thesis using same [OF il] by simp
  qed
  have "table_ok P m'"
    unfolding table_ok_def m' count
    using ok reach m'(3) unfolding table_ok_def by simp
  then show ?thesis unfolding m'_def .
qed

lemma content_assign:
  assumes ok: "table_ok P m" and ib: "unat index < length (entries m)"
    and occ: "state (entries m ! unat index) = 1"
    and key: "fst (data (entries m ! unat index)) = key"
  shows "content (assign_second index val m)
         = {kv \<in> content m. fst kv \<noteq> key} \<union> {(key, val)}"
proof -
  define m' where "m' = assign_second index val m"
  have len: "length (entries m') = length (entries m)"
    unfolding m'_def assign_second_def by simp
  have at: "state (entries m' ! unat index) = 1" "data (entries m' ! unat index) = (key, val)"
    using ib occ key unfolding m'_def assign_second_def by simp_all
  have other: "entries m' ! p = entries m ! p" if "p \<noteq> unat index" for p
    using that unfolding m'_def assign_second_def by simp
  have "(k', v') \<in> content m' \<longleftrightarrow> (k', v') \<in> {kv \<in> content m. fst kv \<noteq> key} \<union> {(key, val)}"
    for k' v'
  proof
    assume "(k', v') \<in> content m'"
    then obtain i where i: "i < length (entries m)"
      "state (entries m' ! i) = 1" "data (entries m' ! i) = (k', v')"
      unfolding content_iff len by auto
    show "(k', v') \<in> {kv \<in> content m. fst kv \<noteq> key} \<union> {(key, val)}"
    proof (cases "i = unat index")
      case True
      then show ?thesis using i at by simp
    next
      case False
      then have e: "state (entries m ! i) = 1" "data (entries m ! i) = (k', v')"
        using i other by simp_all
      have "k' \<noteq> key"
      proof
        assume "k' = key"
        then have "fst (data (entries m ! i)) = fst (data (entries m ! unat index))"
          using e(2) key by simp
        then have "i = unat index"
          using table_ok_slot_unique [OF ok i(1) e(1) ib occ] by simp
        then show False using False by simp
      qed
      moreover have "(k', v') \<in> content m" unfolding content_iff using i(1) e by blast
      ultimately show ?thesis by simp
    qed
  next
    assume "(k', v') \<in> {kv \<in> content m. fst kv \<noteq> key} \<union> {(key, val)}"
    then consider "(k', v') = (key, val)" | "(k', v') \<in> content m" "k' \<noteq> key" by auto
    then show "(k', v') \<in> content m'"
    proof cases
      case 1
      then show ?thesis unfolding content_iff len using ib at
        by (intro exI [of _ "unat index"]) simp
    next
      case 2
      then obtain i where i: "i < length (entries m)" "state (entries m ! i) = 1"
        "data (entries m ! i) = (k', v')" unfolding content_iff by blast
      then have "i \<noteq> unat index" using 2(2) key by auto
      then show ?thesis unfolding content_iff len using i other by (intro exI [of _ i]) simp
    qed
  qed
  then have "content m' = {kv \<in> content m. fst kv \<noteq> key} \<union> {(key, val)}" by auto
  then show ?thesis unfolding m'_def .
qed

lemma place_key_ok:
  assumes ok: "table_ok P m" and room: "unat (m_size m) + 1 < unat (capacity m)"
  obtains r m1 where
    "place_key P key m = Some (Inr (r, m1))"
    "table_ok P m1" "capacity m1 = capacity m"
    "unat r < length (entries m1)" "state (entries m1 ! unat r) = 1"
    "fst (data (entries m1 ! unat r)) = key"
    "content m1 = (if key \<in> fst ` content m then content m
                   else insert (key, value_init P) (content m))"
    "unat (m_size m1) = unat (m_size m) + (if key \<in> fst ` content m then 0 else 1)"
    "key \<in> fst ` content m \<Longrightarrow> m1 = m"
proof -
  obtain r where r: "find_slot P m key = Some (Inr r)" "unat r < length (entries m)"
    "state (entries m ! unat r) \<noteq> 1 \<or> fst (data (entries m ! unat r)) = key"
    using table_ok_find_slot [OF ok] by blast
  show thesis
  proof (cases "state (entries m ! unat r) = 1")
    case True
    then have key: "fst (data (entries m ! unat r)) = key" using r(3) by simp
    have "key \<in> fst ` content m"
      unfolding key_in_content_iff using r(2) True key by blast
    moreover have "place_key P key m = Some (Inr (r, m))"
      using r(1) True by (simp add: place_key_def)
    ultimately show ?thesis using that [of r m] ok r(2) True key by simp
  next
    case False
    define m1 where "m1 = m\<lparr>entries := (entries m)[unat r :=
                        insert_entry key (value_init P) (entries m ! unat r)],
                      m_size := m_size m + 1\<rparr>"
    have absent: "key \<notin> fst ` content m"
    proof
      assume "key \<in> fst ` content m"
      then obtain i where i: "i < length (entries m)" "state (entries m ! i) = 1"
        "fst (data (entries m ! i)) = key" unfolding key_in_content_iff by blast
      have "find_slot P m key = Some (Inr (of_nat i))"
        using table_ok_present [OF ok i(1,2)] i(3) by simp
      then have "r = of_nat i" using r(1) by simp
      moreover have "unat (of_nat i :: 64 word) = i"
        using table_ok_length [OF ok] i(1) by (simp add: unat_of_nat_64)
      ultimately show False using False i(2) by simp
    qed
    have p: "place_key P key m = Some (Inr (r, m1))"
      using r(1) False by (simp add: place_key_def m1_def)
    have t: "table_ok P m1" unfolding m1_def using ok r(1) False room by (rule table_ok_insert)
    have c: "content m1 = insert (key, value_init P) (content m)"
      unfolding m1_def using r(2) False by (rule content_insert)
    have s: "unat (m_size m1) = unat (m_size m) + 1"
      unfolding m1_def using room by (simp add: unat_succ_32 [of _ "capacity m"])
    have e: "unat r < length (entries m1)" "state (entries m1 ! unat r) = 1"
      "fst (data (entries m1 ! unat r)) = key" "capacity m1 = capacity m"
      unfolding m1_def using r(2) by (simp_all add: insert_entry_def)
    show ?thesis using that [OF p t e(4) e(1,2,3)] c s absent by simp
  qed
qed

lemma place_then_assign:
  assumes ok: "table_ok P m" and room: "unat (m_size m) + 1 < unat (capacity m)"
  obtains r m1 where
    "place_key P key m = Some (Inr (r, m1))"
    "table_ok P (assign_second r val m1)"
    "capacity (assign_second r val m1) = capacity m"
    "content (assign_second r val m1) = {kv \<in> content m. fst kv \<noteq> key} \<union> {(key, val)}"
    "unat (m_size (assign_second r val m1))
       = unat (m_size m) + (if key \<in> fst ` content m then 0 else 1)"
proof -
  obtain r m1 where r:
    "place_key P key m = Some (Inr (r, m1))"
    "table_ok P m1" "capacity m1 = capacity m"
    "unat r < length (entries m1)" "state (entries m1 ! unat r) = 1"
    "fst (data (entries m1 ! unat r)) = key"
    "content m1 = (if key \<in> fst ` content m then content m
                   else insert (key, value_init P) (content m))"
    "unat (m_size m1) = unat (m_size m) + (if key \<in> fst ` content m then 0 else 1)"
    using place_key_ok [OF ok room, of key] by metis
  have a: "table_ok P (assign_second r val m1)" using r(2,4) by (rule table_ok_assign)
  have b: "capacity (assign_second r val m1) = capacity m"
    "m_size (assign_second r val m1) = m_size m1"
    using r(3) by (simp_all add: assign_second_def)
  have "content (assign_second r val m1) = {kv \<in> content m1. fst kv \<noteq> key} \<union> {(key, val)}"
    using r(2,4,5,6) by (rule content_assign)
  also have "{kv \<in> content m1. fst kv \<noteq> key} = {kv \<in> content m. fst kv \<noteq> key}"
    unfolding r(7) by auto
  finally have c: "content (assign_second r val m1)
      = {kv \<in> content m. fst kv \<noteq> key} \<union> {(key, val)}" .
  show thesis using that [OF r(1) a b(1) c] b(2) r(8) by simp
qed

section \<open>Growth\<close>

lemma grow_eq:
  "grow (Suc d) P m =
     foldl (rehash_step d P (entries m)) (Some (Inr (grown_empty P m))) [0..<unat (capacity m)]"
  by (simp add: grown_empty_def rehash_step_def [abs_def] Let_def del: index_or_insert.simps)

lemma table_ok_grown_empty:
  assumes ok: "table_ok P m" and small: "unat (capacity m) \<le> 2 ^ 30"
  shows "table_ok P (grown_empty P m)" and "content (grown_empty P m) = {}"
    and "unat (capacity (grown_empty P m)) = 2 * unat (capacity m)"
proof -
  obtain k where k: "k < 32" "capacity m = 2 ^ k" "unat (capacity m) = 2 ^ k"
    using ok is_pow2D unfolding table_ok_def by blast
  have k30: "k \<le> 30"
  proof (rule ccontr)
    assume "\<not> k \<le> 30"
    then have "31 \<le> k" by simp
    then have "(2::nat) ^ 31 \<le> 2 ^ k" by (intro power_increasing) simp_all
    then show False using small k(3) by simp
  qed
  have cap: "capacity (grown_empty P m) = 2 ^ Suc k" unfolding grown_empty_def k(2) by simp
  have ucap: "unat (capacity (grown_empty P m)) = 2 ^ Suc k"
    unfolding cap using k30 by (intro unat_pow2_32) simp
  have es: "entries (grown_empty P m) = replicate (2 ^ Suc k) (Entry_init P)"
    using ucap unfolding grown_empty_def new_entries_def by simp
  have p2: "is_pow2 (capacity (grown_empty P m))"
    unfolding is_pow2_def cap using k30 by (intro bexI [of _ "Suc k"]) simp_all
  have none: "filter (\<lambda>e. state e = 1) (replicate n (Entry_init P)) = []" for n
    by (simp add: Entry_init_def)
  show "table_ok P (grown_empty P m)"
    unfolding table_ok_def using p2 ucap es none
    by (simp add: grown_empty_def Entry_init_def)
  show "content (grown_empty P m) = {}"
    unfolding content_def es by (auto simp: Entry_init_def)
  show "unat (capacity (grown_empty P m)) = 2 * unat (capacity m)"
    unfolding ucap k(3) by simp
qed

lemma slots_upto_Suc:
  "{kv. \<exists>t<Suc i. Q t \<and> f t = kv} = {kv. \<exists>t<i. Q t \<and> f t = kv} \<union> (if Q i then {f i} else {})"
  by (auto simp: less_Suc_eq)

lemma rehash_step_ok:
  assumes ok: "table_ok P m" and c: "unat (capacity m) \<le> 2 ^ 30"
    and i: "i < length (entries m)"
    and inv: "table_ok P mi" "unat (capacity mi) = 2 * unat (capacity m)"
      "capacity mi = capacity m * 2"
      "content mi = {kv. \<exists>t<i. state (entries m ! t) = 1 \<and> data (entries m ! t) = kv}"
      "unat (m_size mi) = length (filter (\<lambda>e. state e = 1) (take i (entries m)))"
  shows "\<exists>mj. rehash_step d P (entries m) (Some (Inr mi)) i = Some (Inr mj) \<and>
           table_ok P mj \<and> unat (capacity mj) = 2 * unat (capacity m) \<and>
           capacity mj = capacity m * 2 \<and>
           content mj = {kv. \<exists>t<Suc i. state (entries m ! t) = 1 \<and> data (entries m ! t) = kv} \<and>
           unat (m_size mj) = length (filter (\<lambda>e. state e = 1) (take (Suc i) (entries m)))"
proof (cases "state (entries m ! i) = 1")
  case False
  have a: "rehash_step d P (entries m) (Some (Inr mi)) i = Some (Inr mi)"
    using False i by (simp add: rehash_step_def del: index_or_insert.simps)
  have b: "{kv. \<exists>t<Suc i. state (entries m ! t) = 1 \<and> data (entries m ! t) = kv} = content mi"
    unfolding slots_upto_Suc inv(4) using False by simp
  have e: "length (filter (\<lambda>e. state e = 1) (take (Suc i) (entries m))) = unat (m_size mi)"
    unfolding inv(5) using False i by (simp add: take_Suc_conv_app_nth)
  show ?thesis
    unfolding b e using a inv(1,2,3) by (intro exI [of _ mi]) simp
next
  case True
  define key where "key = fst (data (entries m ! i))"
  define val where "val = snd (data (entries m ! i))"
  have kv: "data (entries m ! i) = (key, val)" unfolding key_def val_def by simp
  obtain k where k: "k < 32" "capacity m = 2 ^ k" "unat (capacity m) = 2 ^ k"
    using ok is_pow2D unfolding table_ok_def by blast
  have len: "length (entries m) = 2 ^ k" using ok k(3) unfolding table_ok_def by simp
  have "length (filter (\<lambda>e. state e = 1) (take i (entries m))) \<le> length (take i (entries m))"
    by (rule length_filter_le)
  then have cnt: "unat (m_size mi) \<le> i" unfolding inv(5) using i by simp
  have capi: "unat (capacity mi) = 2 ^ Suc k" using inv(2) k(3) by simp
  have lt: "unat (m_size mi) < unat (capacity mi)" using inv(1) unfolding table_ok_def by simp
  have suc: "unat (m_size mi + 1) = unat (m_size mi) + 1" using lt by (rule unat_succ_32)
  have i2: "i < 2 ^ k" using i len by simp
  have "4 * unat (m_size mi + 1) \<le> 3 * 2 ^ Suc k"
    unfolding suc using cnt i2 by simp
  then have ng: "\<not> needs_grow mi" using capi by (intro not_needs_grow_load)
  have room: "unat (m_size mi) + 1 < unat (capacity mi)" unfolding capi using cnt i2 by simp
  have absent: "key \<notin> fst ` content mi"
  proof
    assume "key \<in> fst ` content mi"
    then obtain v where "(key, v) \<in> content mi" by auto
    then obtain t where t: "t < i" "state (entries m ! t) = 1" "data (entries m ! t) = (key, v)"
      unfolding inv(4) by blast
    have tl: "t < length (entries m)" using t(1) i by simp
    have "fst (data (entries m ! t)) = fst (data (entries m ! i))" using t(3) kv by simp
    then have "t = i" by (rule table_ok_slot_unique [OF ok tl t(2) i True])
    then show False using t(1) by simp
  qed
  show ?thesis
  proof (rule place_then_assign [OF inv(1) room, of key val])
    fix r m1
    assume r: "place_key P key mi = Some (Inr (r, m1))"
      "table_ok P (assign_second r val m1)"
      "capacity (assign_second r val m1) = capacity mi"
      "content (assign_second r val m1) = {kv \<in> content mi. fst kv \<noteq> key} \<union> {(key, val)}"
      "unat (m_size (assign_second r val m1))
         = unat (m_size mi) + (if key \<in> fst ` content mi then 0 else 1)"
    have ioi: "index_or_insert d P key mi = Some (Inr (r, m1))"
      unfolding index_or_insert_eq using ng r(1) by simp
    have step: "rehash_step d P (entries m) (Some (Inr mi)) i
        = Some (Inr (assign_second r val m1))"
      unfolding rehash_step_def using True i ioi kv
      by (simp del: index_or_insert.simps)
    have "{kv \<in> content mi. fst kv \<noteq> key} = content mi"
    proof (intro equalityI subsetI)
      fix x assume "x \<in> content mi"
      moreover from this have "fst x \<noteq> key" using absent by (metis imageI)
      ultimately show "x \<in> {kv \<in> content mi. fst kv \<noteq> key}" by simp
    qed simp
    then have c1: "content (assign_second r val m1) = content mi \<union> {(key, val)}"
      using r(4) by simp
    have cont: "content (assign_second r val m1)
        = {kv. \<exists>t<Suc i. state (entries m ! t) = 1 \<and> data (entries m ! t) = kv}"
      unfolding slots_upto_Suc c1 inv(4) using True kv by simp
    have size: "unat (m_size (assign_second r val m1))
        = length (filter (\<lambda>e. state e = 1) (take (Suc i) (entries m)))"
      unfolding r(5) inv(5) using absent True i by (simp add: take_Suc_conv_app_nth)
    have cap2: "unat (capacity (assign_second r val m1)) = 2 * unat (capacity m)"
      "capacity (assign_second r val m1) = capacity m * 2"
      unfolding r(3) using inv(2,3) by simp_all
    show ?thesis
      unfolding cont [symmetric] size [symmetric]
      using step r(2) cap2 by (intro exI [of _ "assign_second r val m1"]) simp
  qed
qed

lemma grow_loop_ok:
  assumes ok: "table_ok P m" and c: "unat (capacity m) \<le> 2 ^ 30"
    and i: "i \<le> length (entries m)"
  shows "\<exists>mi. foldl (rehash_step d P (entries m)) (Some (Inr (grown_empty P m))) [0..<i]
              = Some (Inr mi) \<and>
           table_ok P mi \<and> unat (capacity mi) = 2 * unat (capacity m) \<and>
           capacity mi = capacity m * 2 \<and>
           content mi = {kv. \<exists>t<i. state (entries m ! t) = 1 \<and> data (entries m ! t) = kv} \<and>
           unat (m_size mi) = length (filter (\<lambda>e. state e = 1) (take i (entries m)))"
  using i
proof (induction i)
  case 0
  show ?case
    using table_ok_grown_empty [OF ok c] by (simp add: grown_empty_def)
next
  case (Suc i)
  have "i \<le> length (entries m)" using Suc.prems by simp
  from Suc.IH [OF this] obtain mi where mi:
    "foldl (rehash_step d P (entries m)) (Some (Inr (grown_empty P m))) [0..<i] = Some (Inr mi)"
    "table_ok P mi" "unat (capacity mi) = 2 * unat (capacity m)"
    "capacity mi = capacity m * 2"
    "content mi = {kv. \<exists>t<i. state (entries m ! t) = 1 \<and> data (entries m ! t) = kv}"
    "unat (m_size mi) = length (filter (\<lambda>e. state e = 1) (take i (entries m)))"
    by blast
  have il: "i < length (entries m)" using Suc.prems by simp
  obtain mj where mj: "rehash_step d P (entries m) (Some (Inr mi)) i = Some (Inr mj)"
    "table_ok P mj \<and> unat (capacity mj) = 2 * unat (capacity m) \<and>
     capacity mj = capacity m * 2 \<and>
     content mj = {kv. \<exists>t<Suc i. state (entries m ! t) = 1 \<and> data (entries m ! t) = kv} \<and>
     unat (m_size mj) = length (filter (\<lambda>e. state e = 1) (take (Suc i) (entries m)))"
    using rehash_step_ok [OF ok c il mi(2-6), of d] by blast
  have "foldl (rehash_step d P (entries m)) (Some (Inr (grown_empty P m))) [0..<Suc i]
        = Some (Inr mj)"
    using mi(1) mj(1) by simp
  then show ?case using mj(2) by blast
qed

lemma grow_ok:
  assumes ok: "table_ok P m" and c: "unat (capacity m) \<le> 2 ^ 30"
  obtains m' where "grow (Suc d) P m = Some (Inr m')" "table_ok P m'"
    "unat (capacity m') = 2 * unat (capacity m)" "capacity m' = capacity m * 2"
    "content m' = content m" "m_size m' = m_size m"
proof -
  have len: "length (entries m) = unat (capacity m)" using ok unfolding table_ok_def by simp
  obtain m' where m':
    "foldl (rehash_step d P (entries m)) (Some (Inr (grown_empty P m))) [0..<length (entries m)]
       = Some (Inr m')"
    "table_ok P m'" "unat (capacity m') = 2 * unat (capacity m)"
    "capacity m' = capacity m * 2"
    "content m' = {kv. \<exists>t<length (entries m). state (entries m ! t) = 1 \<and> data (entries m ! t) = kv}"
    "unat (m_size m') = length (filter (\<lambda>e. state e = 1) (take (length (entries m)) (entries m)))"
    using grow_loop_ok [OF ok c order_refl, of d] by blast
  have g: "grow (Suc d) P m = Some (Inr m')" unfolding grow_eq len [symmetric] by (rule m'(1))
  have cont: "content m' = content m"
    unfolding m'(5) by (auto simp: content_iff)
  have "unat (m_size m') = unat (m_size m)"
    using m'(6) ok unfolding table_ok_def by simp
  then have size: "m_size m' = m_size m" by (simp only: word_unat_eq_iff)
  show thesis using that [OF g m'(2,3,4) cont size] .
qed

section \<open>Lookups are determined by the content\<close>

lemma find_value_present:
  assumes ok: "table_ok P m" and kv: "(k, v) \<in> content m"
  shows "find_value P m k = Some (Inr (Some v))"
proof -
  obtain i where i: "i < length (entries m)" "state (entries m ! i) = 1"
    "data (entries m ! i) = (k, v)"
    using kv unfolding content_iff by blast
  have "fst (data (entries m ! i)) = k" using i(3) by simp
  then have "find_map P m k = Some (Inr (Some (of_nat i)))"
    using find_map_present [OF ok i(1,2)] by simp
  moreover have "unat (of_nat i :: 64 word) = i"
    using table_ok_length [OF ok] i(1) by (simp add: unat_of_nat_64)
  ultimately show ?thesis using i(3) by (simp add: find_value_def second_at_def)
qed

lemma find_value_absent:
  assumes ok: "table_ok P m" and absent: "k \<notin> fst ` content m"
  shows "find_value P m k = Some (Inr None)"
proof -
  have "find_map P m k = Some (Inr None)"
  proof (rule find_map_absent [OF ok])
    fix i assume "i < length (entries m)" "state (entries m ! i) = 1"
    then show "fst (data (entries m ! i)) \<noteq> k"
      using absent unfolding key_in_content_iff by blast
  qed
  then show ?thesis by (simp add: find_value_def)
qed

lemma content_functional:
  assumes ok: "table_ok P m" and a: "(k, v) \<in> content m" and b: "(k, v') \<in> content m"
  shows "v = v'"
  using find_value_present [OF ok a] find_value_present [OF ok b] by simp

lemma find_value_content_cong:
  assumes "table_ok P m" and "table_ok P m'" and "content m' = content m"
  shows "find_value P m' k = find_value P m k"
proof (cases "k \<in> fst ` content m")
  case True
  then obtain v where "(k, v) \<in> content m" by auto
  then show ?thesis
    using find_value_present [OF assms(1)] find_value_present [OF assms(2)] assms(3) by simp
next
  case False
  then show ?thesis
    using find_value_absent [OF assms(1)] find_value_absent [OF assms(2)] assms(3) by simp
qed

lemma size_map_eq: "m_size m' = m_size m \<Longrightarrow> size_map m' = size_map m"
  by (simp add: size_map_def)

text \<open>
  Claim C5. For a well-formed map whose capacity can be doubled (\<open>capacity \<le> 2 ^ 30\<close>, so
  that \<open>capacity *= 2\<close> does not leave the range of \<open>uint32_t\<close>), \<open>grow\<close> returns a
  well-formed map of twice the capacity with the same key-value pairs: every lookup
  returns what it returned before (the keys present are retrieved with their values
  unchanged), and \<open>size()\<close> is unchanged.
\<close>

theorem grow_preserves_entries:
  assumes "table_ok P m" and "unat (capacity m) \<le> 2 ^ 30"
  shows "\<exists>m'. grow (Suc d) P m = Some (Inr m') \<and>
           unat (capacity m') = 2 * unat (capacity m) \<and>
           size_map m' = size_map m \<and>
           content m' = content m \<and>
           (\<forall>k v. find_value P m k = Some (Inr (Some v)) \<longrightarrow>
                  find_value P m' k = Some (Inr (Some v))) \<and>
           (\<forall>k. find_value P m' k = find_value P m k) \<and>
           table_ok P m'"
proof (rule grow_ok [OF assms, of d])
  fix m'
  assume m': "grow (Suc d) P m = Some (Inr m')" "table_ok P m'"
    "unat (capacity m') = 2 * unat (capacity m)" "capacity m' = capacity m * 2"
    "content m' = content m" "m_size m' = m_size m"
  have same: "find_value P m' k = find_value P m k" for k
    using assms(1) m'(2,5) by (rule find_value_content_cong)
  show ?thesis
    using m'(1,2,3,5) size_map_eq [OF m'(6)] same by (intro exI [of _ m']) simp
qed


theorem grow_preserves_entries_witness:
  "needs_grow six_key_map \<and>
   (\<exists>m'. grow (Suc 0) int_params six_key_map = Some (Inr m') \<and>
      unat (capacity m') = 16 \<and> size_map m' = 6 \<and>
      find_value int_params m' 3 = Some (Inr (Some 103)))"
proof -
  have h1: "table_ok int_params six_key_map" by code_simp
  have h2: "unat (capacity six_key_map) \<le> 2 ^ 30" by (simp add: six_key_map_def)
  have g: "needs_grow six_key_map"
    by (simp add: needs_grow_def float_div_gt_max_load_def float_of_u32_exact six_key_map_def)
  have f: "find_value int_params six_key_map 3 = Some (Inr (Some 103))" by code_simp
  have c: "unat (capacity six_key_map) = 8" "size_map six_key_map = 6"
    by (simp_all add: six_key_map_def size_map_def)
  show ?thesis
    using grow_preserves_entries [OF h1 h2, of 0] g f c by auto
qed

section \<open>Insertion with the growth test\<close>

lemma table_ok_capacity_pos: "table_ok P m \<Longrightarrow> 0 < unat (capacity m)"
  unfolding table_ok_def by simp

lemma index_or_insert_ok:
  assumes ok: "table_ok P m" and bound: "needs_grow m \<Longrightarrow> unat (capacity m) \<le> 2 ^ 30"
  obtains r m1 where
    "index_or_insert (Suc d) P key m = Some (Inr (r, m1))"
    "table_ok P m1"
    "unat (capacity m1) = (if needs_grow m then 2 * unat (capacity m) else unat (capacity m))"
    "unat r < length (entries m1)" "state (entries m1 ! unat r) = 1"
    "fst (data (entries m1 ! unat r)) = key"
    "content m1 = (if key \<in> fst ` content m then content m
                   else insert (key, value_init P) (content m))"
    "unat (m_size m1) = unat (m_size m) + (if key \<in> fst ` content m then 0 else 1)"
proof (cases "needs_grow m")
  case True
  show ?thesis
  proof (rule grow_ok [OF ok bound [OF True], of d])
    fix m'
    assume m': "grow (Suc d) P m = Some (Inr m')" "table_ok P m'"
      "unat (capacity m') = 2 * unat (capacity m)" "capacity m' = capacity m * 2"
      "content m' = content m" "m_size m' = m_size m"
    have "unat (m_size m) < unat (capacity m)" using ok unfolding table_ok_def by simp
    then have room: "unat (m_size m') + 1 < unat (capacity m')"
      unfolding m'(3) m'(6) by simp
    show ?thesis
    proof (rule place_key_ok [OF m'(2) room, of key])
      fix r m1
      assume r: "place_key P key m' = Some (Inr (r, m1))"
        "table_ok P m1" "capacity m1 = capacity m'"
        "unat r < length (entries m1)" "state (entries m1 ! unat r) = 1"
        "fst (data (entries m1 ! unat r)) = key"
        "content m1 = (if key \<in> fst ` content m' then content m'
                       else insert (key, value_init P) (content m'))"
        "unat (m_size m1) = unat (m_size m') + (if key \<in> fst ` content m' then 0 else 1)"
      have a: "index_or_insert (Suc d) P key m = Some (Inr (r, m1))"
        unfolding index_or_insert_eq using True m'(1) r(1) by simp
      show ?thesis
        using that [OF a r(2) _ r(4,5,6)] r(3,7,8) m'(3,5,6) True by simp
    qed
  qed
next
  case False
  obtain k where k: "k < 32" "capacity m = 2 ^ k" "unat (capacity m) = 2 ^ k"
    using ok is_pow2D unfolding table_ok_def by blast
  have "unat (m_size m) < unat (capacity m)" using ok unfolding table_ok_def by simp
  then have "unat (m_size m + 1) = unat (m_size m) + 1" by (rule unat_succ_32)
  then have room: "unat (m_size m) + 1 < unat (capacity m)"
    using not_needs_grow_free [OF k(3) False] k(3) by simp
  show ?thesis
  proof (rule place_key_ok [OF ok room, of key])
    fix r m1
    assume r: "place_key P key m = Some (Inr (r, m1))"
      "table_ok P m1" "capacity m1 = capacity m"
      "unat r < length (entries m1)" "state (entries m1 ! unat r) = 1"
      "fst (data (entries m1 ! unat r)) = key"
      "content m1 = (if key \<in> fst ` content m then content m
                     else insert (key, value_init P) (content m))"
      "unat (m_size m1) = unat (m_size m) + (if key \<in> fst ` content m then 0 else 1)"
    have a: "index_or_insert (Suc d) P key m = Some (Inr (r, m1))"
      unfolding index_or_insert_eq using False r(1) by simp
    show ?thesis
      using that [OF a r(2) _ r(4,5,6)] r(3,7,8) False by simp
  qed
qed

lemma subscript_assign_ok:
  assumes ok: "table_ok P m" and bound: "needs_grow m \<Longrightarrow> unat (capacity m) \<le> 2 ^ 30"
  obtains m2 where
    "subscript_assign (Suc d) P key val m = Some (Inr m2)"
    "table_ok P m2"
    "unat (capacity m2) = (if needs_grow m then 2 * unat (capacity m) else unat (capacity m))"
    "content m2 = {kv \<in> content m. fst kv \<noteq> key} \<union> {(key, val)}"
    "unat (m_size m2) = unat (m_size m) + (if key \<in> fst ` content m then 0 else 1)"
proof (rule index_or_insert_ok [OF ok bound, of d key])
  fix r m1
  assume r: "index_or_insert (Suc d) P key m = Some (Inr (r, m1))"
    "table_ok P m1"
    "unat (capacity m1) = (if needs_grow m then 2 * unat (capacity m) else unat (capacity m))"
    "unat r < length (entries m1)" "state (entries m1 ! unat r) = 1"
    "fst (data (entries m1 ! unat r)) = key"
    "content m1 = (if key \<in> fst ` content m then content m
                   else insert (key, value_init P) (content m))"
    "unat (m_size m1) = unat (m_size m) + (if key \<in> fst ` content m then 0 else 1)"
  define m2 where "m2 = assign_second r val m1"
  have a: "subscript_assign (Suc d) P key val m = Some (Inr m2)"
    unfolding subscript_assign_def m2_def using r(1) by (simp del: index_or_insert.simps)
  have b: "table_ok P m2" unfolding m2_def using r(2,4) by (rule table_ok_assign)
  have c: "capacity m2 = capacity m1" "m_size m2 = m_size m1"
    unfolding m2_def by (simp_all add: assign_second_def)
  have "content m2 = {kv \<in> content m1. fst kv \<noteq> key} \<union> {(key, val)}"
    unfolding m2_def using r(2,4,5,6) by (rule content_assign)
  also have "{kv \<in> content m1. fst kv \<noteq> key} = {kv \<in> content m. fst kv \<noteq> key}"
    unfolding r(7) by auto
  finally have e: "content m2 = {kv \<in> content m. fst kv \<noteq> key} \<union> {(key, val)}" .
  show thesis
    using that [OF a b _ e] c r(3,8) by simp
qed

section \<open>A freshly constructed map\<close>

lemma ucast_pow2_64_32: "(ucast ((2::64 word) ^ j) :: 32 word) = 2 ^ j"
  by (rule bit_word_eqI) (auto simp: bit_simps)

lemma table_ok_construct:
  assumes init: "InitialSize P = 2 ^ j" and j: "j < 32"
  shows "table_ok P (construct_map P)" and "content (construct_map P) = {}"
    and "unat (capacity (construct_map P)) = 2 ^ j" and "m_size (construct_map P) = 0"
proof -
  have cap: "capacity (construct_map P) = 2 ^ j"
    unfolding construct_map_def init by (simp add: ucast_pow2_64_32)
  have ucap: "unat (capacity (construct_map P)) = 2 ^ j"
    unfolding cap using j by (rule unat_pow2_32)
  have es: "entries (construct_map P) = replicate (2 ^ j) (Entry_init P)"
    using ucap unfolding construct_map_def new_entries_def by simp
  have p2: "is_pow2 (capacity (construct_map P))"
    unfolding is_pow2_def cap using j by (intro bexI [of _ j]) simp_all
  have none: "filter (\<lambda>e. state e = 1) (replicate n (Entry_init P)) = []" for n
    by (simp add: Entry_init_def)
  show "m_size (construct_map P) = 0" by (simp add: construct_map_def)
  then show "table_ok P (construct_map P)"
    unfolding table_ok_def using p2 ucap es none
    by (simp add: Entry_init_def)
  show "content (construct_map P) = {}"
    unfolding content_def es by (auto simp: Entry_init_def)
  show "unat (capacity (construct_map P)) = 2 ^ j" by (rule ucap)
qed

section \<open>Sequences of assignments\<close>

lemma finite_content: "finite (content m)"
  unfolding content_def by simp

lemma find_value_graph:
  assumes ok: "table_ok P m" and c: "content m = Map.graph g"
  shows "find_value P m k = Some (Inr (g k))"
proof (cases "g k")
  case None
  then have "k \<notin> fst ` content m" unfolding c fst_graph_eq_dom by auto
  then show ?thesis using find_value_absent [OF ok] None by simp
next
  case (Some v)
  then have "(k, v) \<in> content m" unfolding c by (rule in_graphI)
  then show ?thesis using find_value_present [OF ok] Some by simp
qed

lemma no_growth_needed_beyond:
  assumes ok: "table_ok P m" and n: "unat (m_size m) \<le> 2 ^ 30" and g: "needs_grow m"
  shows "unat (capacity m) \<le> 2 ^ 30"
proof (rule ccontr)
  assume big: "\<not> unat (capacity m) \<le> 2 ^ 30"
  obtain k where k: "k < 32" "capacity m = 2 ^ k" "unat (capacity m) = 2 ^ k"
    using ok is_pow2D unfolding table_ok_def by blast
  have "\<not> k \<le> 30"
  proof
    assume "k \<le> 30"
    then have "(2::nat) ^ k \<le> 2 ^ 30" by (intro power_increasing) simp_all
    then show False using big k(3) by simp
  qed
  then have k31: "k = 31" using k(1) by simp
  have "unat (m_size m) < unat (capacity m)" using ok unfolding table_ok_def by simp
  then have "unat (m_size m + 1) = unat (m_size m) + 1" by (rule unat_succ_32)
  then have "4 * unat (m_size m + 1) \<le> 3 * 2 ^ k" using n unfolding k31 by simp
  then have "\<not> needs_grow m" using k(3) by (intro not_needs_grow_load)
  then show False using g by simp
qed

lemma assign_all_ok:
  assumes "table_ok P m" and "content m = Map.graph f" and "unat (m_size m) = card (dom f)"
    and "card (dom f \<union> fst ` set kvs) \<le> 2 ^ 30"
  shows "\<exists>m'. assign_all (Suc d) P kvs m = Some (Inr m') \<and> table_ok P m' \<and>
           content m' = Map.graph (f ++ map_of (rev kvs)) \<and>
           unat (m_size m') = card (dom f \<union> fst ` set kvs)"
  using assms
proof (induction kvs arbitrary: m f)
  case Nil
  then show ?case by simp
next
  case (Cons kv kvs)
  obtain k v where kv: "kv = (k, v)" by (cases kv)
  have fin: "finite (dom f)"
    using finite_content [of m] unfolding Cons.prems(2) finite_graph_iff_finite_dom .
  have sub: "card (dom f) \<le> card (dom f \<union> fst ` set (kv # kvs))"
    using fin by (intro card_mono) auto
  then have n: "unat (m_size m) \<le> 2 ^ 30" using Cons.prems(3,4) by simp
  show ?case
  proof (rule subscript_assign_ok [OF Cons.prems(1) no_growth_needed_beyond [OF Cons.prems(1) n],
        of d k v])
    fix m2
    assume m2: "subscript_assign (Suc d) P k v m = Some (Inr m2)" "table_ok P m2"
      "content m2 = {kv \<in> content m. fst kv \<noteq> k} \<union> {(k, v)}"
      "unat (m_size m2) = unat (m_size m) + (if k \<in> fst ` content m then 0 else 1)"
    have c2: "content m2 = Map.graph (f(k \<mapsto> v))"
      unfolding m2(3) Cons.prems(2) graph_map_upd graph_fun_upd_None by auto
    have "unat (m_size m2) = card (insert k (dom f))"
      unfolding m2(4) Cons.prems(2,3) fst_graph_eq_dom using fin
      by (simp add: card_insert_if)
    then have s2: "unat (m_size m2) = card (dom (f(k \<mapsto> v)))" by simp
    have "dom (f(k \<mapsto> v)) \<union> fst ` set kvs = dom f \<union> fst ` set (kv # kvs)"
      unfolding kv by auto
    then have b2: "card (dom (f(k \<mapsto> v)) \<union> fst ` set kvs) \<le> 2 ^ 30"
      using Cons.prems(4) by simp
    obtain m' where m': "assign_all (Suc d) P kvs m2 = Some (Inr m')" "table_ok P m'"
      "content m' = Map.graph (f(k \<mapsto> v) ++ map_of (rev kvs))"
      "unat (m_size m') = card (dom (f(k \<mapsto> v)) \<union> fst ` set kvs)"
      using Cons.IH [OF m2(2) c2 s2 b2] by blast
    have "f(k \<mapsto> v) ++ map_of (rev kvs) = f ++ map_of (rev (kv # kvs))"
      unfolding kv by (simp add: map_add_upd_left)
    moreover have "dom (f(k \<mapsto> v)) \<union> fst ` set kvs = dom f \<union> fst ` set (kv # kvs)"
      unfolding kv by auto
    moreover have "assign_all (Suc d) P (kv # kvs) m = Some (Inr m')"
      unfolding kv using m2(1) m'(1) by (simp del: index_or_insert.simps)
    ultimately show ?thesis using m'(2,3,4) by (intro exI [of _ m']) simp
  qed
qed


lemma unat_size_map: "unat (size_map m) = unat (m_size m)"
proof -
  have "unat (m_size m) < 2 ^ 32" using unsigned_less [of "m_size m"] by simp
  then have "unat (m_size m) < 2 ^ 64" by simp
  then show ?thesis by (simp add: size_map_def unsigned_ucast_eq take_bit_nat_eq_self)
qed

text \<open>
  Claim C1, within the range of the capacity field. For a power-of-two initial size that
  fits in \<open>uint32_t\<close> and a sequence of assignments \<open>m[key] = val\<close> to a fresh map that
  names at most \<open>2 ^ 30\<close> different keys, all assignments return, \<open>size()\<close> is the number
  of different keys, and \<open>find\<close> returns for every key the last value assigned to it
  (and \<open>nullptr\<close> for every other key). For pairwise-distinct keys, \<open>size()\<close> is the
  length of the sequence.
\<close>

theorem assign_all_then_find:
  assumes "InitialSize P = 2 ^ j" and "j < 32" and "card (fst ` set kvs) \<le> 2 ^ 30"
  shows "\<exists>m. assign_all (Suc d) P kvs (construct_map P) = Some (Inr m) \<and>
           unat (size_map m) = card (fst ` set kvs) \<and>
           (\<forall>k. find_value P m k = Some (Inr (map_of (rev kvs) k))) \<and>
           (distinct (map fst kvs) \<longrightarrow>
              unat (size_map m) = length kvs \<and>
              (\<forall>kv\<in>set kvs. find_value P m (fst kv) = Some (Inr (Some (snd kv)))))"
proof -
  have ok: "table_ok P (construct_map P)" and c: "content (construct_map P) = Map.graph Map.empty"
    and s: "unat (m_size (construct_map P)) = card (dom (Map.empty :: 'a \<rightharpoonup> 'b))"
    using table_ok_construct [OF assms(1,2)] by simp_all
  have b: "card (dom (Map.empty :: 'a \<rightharpoonup> 'b) \<union> fst ` set kvs) \<le> 2 ^ 30"
    using assms(3) by simp
  obtain m where m: "assign_all (Suc d) P kvs (construct_map P) = Some (Inr m)" "table_ok P m"
    "content m = Map.graph (Map.empty ++ map_of (rev kvs))"
    "unat (m_size m) = card (dom (Map.empty :: 'a \<rightharpoonup> 'b) \<union> fst ` set kvs)"
    using assign_all_ok [OF ok c s b, of d] by blast
  have size: "unat (size_map m) = card (fst ` set kvs)"
    using m(4) by (simp add: unat_size_map)
  have find: "find_value P m k = Some (Inr (map_of (rev kvs) k))" for k
    using find_value_graph [OF m(2), of "map_of (rev kvs)" k] m(3) by simp
  have dist: "unat (size_map m) = length kvs \<and>
      (\<forall>kv\<in>set kvs. find_value P m (fst kv) = Some (Inr (Some (snd kv))))"
    if d: "distinct (map fst kvs)"
  proof
    have "card (fst ` set kvs) = length (map fst kvs)"
      using distinct_card [OF d] by simp
    then show "unat (size_map m) = length kvs" using size by simp
    show "\<forall>kv\<in>set kvs. find_value P m (fst kv) = Some (Inr (Some (snd kv)))"
    proof
      fix kv assume "kv \<in> set kvs"
      then have "(fst kv, snd kv) \<in> set (rev kvs)" by simp
      moreover have "distinct (map fst (rev kvs))" using d by (simp add: rev_map [symmetric])
      ultimately have "map_of (rev kvs) (fst kv) = Some (snd kv)" by (intro map_of_is_SomeI)
      then show "find_value P m (fst kv) = Some (Inr (Some (snd kv)))" using find by simp
    qed
  qed
  show ?thesis using m(1) size find dist by (intro exI [of _ m]) blast
qed

theorem assign_all_then_find_witness:
  "\<exists>m. assign_all (Suc 0) int_params [(0, 100), (8, 200), (0, 300)] (construct_map int_params)
          = Some (Inr m) \<and>
        unat (size_map m) = 2 \<and>
        find_value int_params m 0 = Some (Inr (Some 300)) \<and>
        find_value int_params m 8 = Some (Inr (Some 200)) \<and>
        find_value int_params m 5 = Some (Inr None)"
proof -
  have h1: "InitialSize int_params = 2 ^ 3" by (simp add: int_params_def)
  have h2: "(3::nat) < 32" by simp
  have "fst ` set [(0 :: 32 word, 100 :: 32 word), (8, 200), (0, 300)] = {0, 8}" by auto
  then have c: "card (fst ` set [(0 :: 32 word, 100 :: 32 word), (8, 200), (0, 300)]) = 2" by simp
  then have h3: "card (fst ` set [(0 :: 32 word, 100 :: 32 word), (8, 200), (0, 300)]) \<le> 2 ^ 30"
    by simp
  show ?thesis
    using assign_all_then_find [OF h1 h2 h3, of 0] unfolding c by (auto simp del: assign_all.simps)
qed

text \<open>
  The claim as stated fails when the capacity leaves the range of \<open>uint32_t\<close>: with the
  initial size \<open>2 ^ 32\<close>, a power of two, the constructor stores capacity 0 and allocates
  no slot, and the first assignment reads outside the table.
\<close>

theorem assign_all_capacity_counterexample:
  "assign_all (Suc 0) (int_params\<lparr>InitialSize := 2 ^ 32\<rparr>) [(0, 100)]
     (construct_map (int_params\<lparr>InitialSize := 2 ^ 32\<rparr>)) = Some (Inl OutOfBounds)"
proof -
  define P where "P = int_params\<lparr>InitialSize := 2 ^ 32\<rparr>"
  have "entries (construct_map P) = []" "capacity (construct_map P) = 0"
    "m_size (construct_map P) = 0"
    by (simp_all add: construct_map_def P_def new_entries_def)
  then have "index_or_insert (Suc 0) P 0 (construct_map P) = Some (Inl OutOfBounds)"
    by (rule index_or_insert_no_table)
  then show ?thesis
    unfolding P_def [symmetric] by (simp add: subscript_assign_def del: index_or_insert.simps)
qed

section \<open>Growth beyond the range of the capacity field\<close>

lemma bind_res_eq_Inr:
  assumes "bind_res r f = Some (Inr y)"
  obtains x where "r = Some (Inr x)" "f x = Some (Inr y)"
proof (cases r)
  case None
  then show ?thesis using assms by simp
next
  case (Some a)
  then show ?thesis using assms that by (cases a) simp_all
qed

lemma index_or_insert_no_table_any:
  assumes "entries m = []" "capacity m = 0" "m_size m = 0"
  shows "index_or_insert d P key m \<noteq> Some (Inr x)"
proof (cases d)
  case 0
  have "needs_grow m"
    using assms by (simp add: needs_grow_def float_div_gt_max_load_def float_of_u32_0 float_of_u32_1)
  then show ?thesis unfolding 0 index_or_insert_eq by simp
next
  case (Suc d')
  show ?thesis unfolding Suc index_or_insert_no_table [OF assms] by simp
qed

lemma rehash_step_overflow:
  assumes res: "rehash_step d P old acc i = Some (Inr mj)"
    and inv: "\<And>mi. acc = Some (Inr mi) \<Longrightarrow>
                entries mi = [] \<and> capacity mi = 0 \<and> m_size mi = 0 \<and> (\<forall>t<i. state (old ! t) \<noteq> 1)"
  shows "entries mj = [] \<and> capacity mj = 0 \<and> m_size mj = 0 \<and> (\<forall>t<Suc i. state (old ! t) \<noteq> 1)"
proof -
  obtain mi where acc: "acc = Some (Inr mi)"
  proof (cases acc)
    case None
    then show ?thesis using res by (simp add: rehash_step_def)
  next
    case (Some a)
    then show ?thesis using res that by (cases a) (simp_all add: rehash_step_def)
  qed
  have mi: "entries mi = []" "capacity mi = 0" "m_size mi = 0" "\<forall>t<i. state (old ! t) \<noteq> 1"
    using inv [OF acc] by simp_all
  have free: "state (old ! i) \<noteq> 1"
  proof
    assume occ: "state (old ! i) = 1"
    have "index_or_insert d P (fst (data (old ! i))) mi \<noteq> Some (Inr x)" for x
      using mi(1,2,3) by (rule index_or_insert_no_table_any)
    then have "bind_res (index_or_insert d P (fst (data (old ! i))) mi)
        (\<lambda>(index, m''). Some (Inr (assign_second index (snd (data (old ! i))) m''))) \<noteq> Some (Inr mj)"
      by (metis bind_res_eq_Inr)
    then show False
      using res occ unfolding acc rehash_step_def
      by (simp split: if_splits del: index_or_insert.simps)
  qed
  then have "mj = mi"
    using res unfolding acc rehash_step_def by (simp split: if_splits del: index_or_insert.simps)
  then show ?thesis using mi free by (simp add: less_Suc_eq)
qed

lemma grow_loop_overflow:
  assumes cap: "capacity m * 2 = 0"
    and res: "foldl (rehash_step d P old) (Some (Inr (grown_empty P m))) [0..<i] = Some (Inr mi)"
  shows "entries mi = [] \<and> capacity mi = 0 \<and> m_size mi = 0 \<and> (\<forall>t<i. state (old ! t) \<noteq> 1)"
  using res
proof (induction i arbitrary: mi)
  case 0
  then have "mi = grown_empty P m" by simp
  then show ?case using cap by (simp add: grown_empty_def new_entries_def)
next
  case (Suc i)
  have "rehash_step d P old (foldl (rehash_step d P old) (Some (Inr (grown_empty P m))) [0..<i]) i
        = Some (Inr mi)"
    using Suc.prems by simp
  then show ?case using Suc.IH by (rule rehash_step_overflow)
qed

lemma grow_overflow:
  assumes ok: "table_ok P m" and cap: "unat (capacity m) = 2 ^ 31" and g: "needs_grow m"
  shows "grow d P m \<noteq> Some (Inr m')"
proof (cases d)
  case 0
  then show ?thesis by simp
next
  case (Suc d')
  have c0: "capacity m * 2 = 0"
  proof -
    have "unat (capacity m * 2) = (unat (capacity m) * 2) mod 2 ^ 32" by (simp add: unat_word_ariths)
    then have "unat (capacity m * 2) = 0" unfolding cap by simp
    then show ?thesis by (simp add: unat_eq_0)
  qed
  have len: "length (entries m) = unat (capacity m)" using ok unfolding table_ok_def by simp
  have "unat (m_size m) \<noteq> 0"
  proof
    assume z: "unat (m_size m) = 0"
    then have "m_size m = 0" by (simp add: unat_eq_0)
    then have "4 * unat (m_size m + 1) \<le> 3 * 2 ^ 31" by simp
    then have "\<not> needs_grow m" using cap by (intro not_needs_grow_load)
    then show False using g by simp
  qed
  then have "filter (\<lambda>e. state e = 1) (entries m) \<noteq> []"
    using ok unfolding table_ok_def by auto
  then obtain e where "e \<in> set (entries m)" "state e = 1"
    by (metis (mono_tags, lifting) filter_False)
  then obtain t where t: "t < length (entries m)" "state (entries m ! t) = 1"
    by (metis in_set_conv_nth)
  show ?thesis
  proof
    assume "grow d P m = Some (Inr m')"
    then have "foldl (rehash_step d' P (entries m)) (Some (Inr (grown_empty P m)))
        [0..<length (entries m)] = Some (Inr m')"
      unfolding Suc grow_eq len .
    then have "\<forall>t<length (entries m). state (entries m ! t) \<noteq> 1"
      using grow_loop_overflow [OF c0] by blast
    then show False using t by simp
  qed
qed

section \<open>Every returning insertion keeps the map well-formed\<close>

lemma place_key_result:
  assumes ok: "table_ok P m" and room: "unat (m_size m) + 1 < unat (capacity m)"
    and res: "place_key P key m = Some (Inr (r, m1))"
  shows "table_ok P m1" "capacity m1 = capacity m"
    "unat r < length (entries m1)" "state (entries m1 ! unat r) = 1"
    "unat (m_size m1) \<le> unat (m_size m) + 1"
proof -
  have "table_ok P m1 \<and> capacity m1 = capacity m \<and> unat r < length (entries m1) \<and>
        state (entries m1 ! unat r) = 1 \<and> unat (m_size m1) \<le> unat (m_size m) + 1"
  proof (rule place_key_ok [OF ok room, of key])
    fix r' m1'
    assume a: "place_key P key m = Some (Inr (r', m1'))"
      "table_ok P m1'" "capacity m1' = capacity m"
      "unat r' < length (entries m1')" "state (entries m1' ! unat r') = 1"
      "unat (m_size m1') = unat (m_size m) + (if key \<in> fst ` content m then 0 else 1)"
    have "r' = r" "m1' = m1" using a(1) res by simp_all
    then show ?thesis using a(2-6) by simp
  qed
  then show "table_ok P m1" "capacity m1 = capacity m"
    "unat r < length (entries m1)" "state (entries m1 ! unat r) = 1"
    "unat (m_size m1) \<le> unat (m_size m) + 1" by simp_all
qed

lemma index_or_insert_result:
  assumes ok: "table_ok P m" and res: "index_or_insert d P key m = Some (Inr (r, m1))"
  shows "table_ok P m1"
    "unat (capacity m1) = (if needs_grow m then 2 * unat (capacity m) else unat (capacity m))"
    "unat r < length (entries m1)" "state (entries m1 ! unat r) = 1"
    "unat (m_size m1) \<le> unat (m_size m) + 1"
proof -
  obtain k where k: "k < 32" "capacity m = 2 ^ k" "unat (capacity m) = 2 ^ k"
    using ok is_pow2D unfolding table_ok_def by blast
  have lt: "unat (m_size m) < unat (capacity m)" using ok unfolding table_ok_def by simp
  have "table_ok P m1 \<and>
    unat (capacity m1) = (if needs_grow m then 2 * unat (capacity m) else unat (capacity m)) \<and>
    unat r < length (entries m1) \<and> state (entries m1 ! unat r) = 1 \<and>
    unat (m_size m1) \<le> unat (m_size m) + 1"
  proof (cases "needs_grow m")
    case False
    have "unat (m_size m + 1) = unat (m_size m) + 1" using lt by (rule unat_succ_32)
    then have room: "unat (m_size m) + 1 < unat (capacity m)"
      using not_needs_grow_free [OF k(3) False] k(3) by simp
    have p: "place_key P key m = Some (Inr (r, m1))"
      using res False unfolding index_or_insert_eq by simp
    show ?thesis using place_key_result [OF ok room p] False by simp
  next
    case True
    have "bind_res (grow d P m) (place_key P key) = Some (Inr (r, m1))"
      using res True unfolding index_or_insert_eq by simp
    then obtain m' where g: "grow d P m = Some (Inr m')"
      and p: "place_key P key m' = Some (Inr (r, m1))"
      by (rule bind_res_eq_Inr)
    obtain d' where d: "d = Suc d'" using g by (cases d) simp_all
    have small: "unat (capacity m) \<le> 2 ^ 30"
    proof (rule ccontr)
      assume big: "\<not> unat (capacity m) \<le> 2 ^ 30"
      have "\<not> k \<le> 30"
      proof
        assume "k \<le> 30"
        then have "(2::nat) ^ k \<le> 2 ^ 30" by (intro power_increasing) simp_all
        then show False using big k(3) by simp
      qed
      then have "k = 31" using k(1) by simp
      then have "unat (capacity m) = 2 ^ 31" using k(3) by simp
      then show False using grow_overflow [OF ok _ True, of d m'] g by simp
    qed
    show ?thesis
    proof (rule grow_ok [OF ok small, of d'])
      fix m''
      assume a: "grow (Suc d') P m = Some (Inr m'')" "table_ok P m''"
        "unat (capacity m'') = 2 * unat (capacity m)" "m_size m'' = m_size m"
      have e: "m'' = m'" using a(1) g d by simp
      have room: "unat (m_size m') + 1 < unat (capacity m')"
        using lt a(3,4) unfolding e by simp
      show ?thesis
        using place_key_result [OF _ room p] a(2,3,4) True unfolding e by simp
    qed
  qed
  then show "table_ok P m1"
    "unat (capacity m1) = (if needs_grow m then 2 * unat (capacity m) else unat (capacity m))"
    "unat r < length (entries m1)" "state (entries m1 ! unat r) = 1"
    "unat (m_size m1) \<le> unat (m_size m) + 1" by simp_all
qed

section \<open>Reachable maps\<close>

lemma unat_pow2_64:
  assumes "j < 64"
  shows "unat ((2::64 word) ^ j) = 2 ^ j"
proof -
  have "(2::64 word) ^ j = of_nat (2 ^ j)" by simp
  then have "unat ((2::64 word) ^ j) = 2 ^ j mod 2 ^ 64" by (simp only: unat_of_nat) simp
  moreover have "(2::nat) ^ j < 2 ^ 64" using assms by (intro power_strict_increasing) simp_all
  ultimately show ?thesis by simp
qed

lemma subscript_assign_result:
  assumes ok: "table_ok P m" and res: "subscript_assign d P key val m = Some (Inr m2)"
  shows "table_ok P m2"
    "unat (capacity m2) = (if needs_grow m then 2 * unat (capacity m) else unat (capacity m))"
    "unat (m_size m2) \<le> unat (m_size m) + 1"
proof -
  have "bind_res (index_or_insert d P key m)
      (\<lambda>(index, m'). Some (Inr (assign_second index val m'))) = Some (Inr m2)"
    using res unfolding subscript_assign_def .
  then obtain x where x: "index_or_insert d P key m = Some (Inr x)"
    "(case x of (index, m') \<Rightarrow> Some (Inr (assign_second index val m')))
       = (Some (Inr m2) :: ('a, 'b) hash_map result)"
    by (rule bind_res_eq_Inr)
  obtain r m1 where rm: "x = (r, m1)" by (cases x)
  have m2: "m2 = assign_second r val m1" using x(2) unfolding rm by simp
  have a: "index_or_insert d P key m = Some (Inr (r, m1))" using x(1) rm by simp
  note r = index_or_insert_result [OF ok a]
  show "table_ok P m2" unfolding m2 using r(1,3) by (rule table_ok_assign)
  show "unat (capacity m2) = (if needs_grow m then 2 * unat (capacity m) else unat (capacity m))"
    unfolding m2 using r(2) by (simp add: assign_second_def)
  show "unat (m_size m2) \<le> unat (m_size m) + 1"
    unfolding m2 using r(5) by (simp add: assign_second_def)
qed

lemma reachable_table_ok:
  assumes init: "InitialSize P = 2 ^ j" and j: "j < 32" and r: "reachable P m"
  shows "table_ok P m \<and> 2 ^ j \<le> unat (capacity m)"
  using r
proof (induction rule: reachable.induct)
  case reach_construct
  show ?case using table_ok_construct [OF init j] by simp
next
  case (reach_index m d key index m')
  then show ?case using index_or_insert_result(1,2) [of P m d key index m'] by (simp split: if_splits)
next
  case (reach_assign m d key val m')
  then show ?case using subscript_assign_result(1,2) [of P m d key val m'] by (simp split: if_splits)
next
  case (reach_clear m)
  show ?case unfolding clear_eq_construct using table_ok_construct [OF init j] by simp
next
  case (reach_move_from other)
  have "fst (move_from other) = other" by (simp add: move_from_def)
  then show ?case using reach_move_from.IH by simp
next
  case (reach_move_assign other this)
  have "fst (move_assign this other) = other" by (simp add: move_assign_def)
  then show ?case using reach_move_assign.IH by simp
qed

lemma insertion_load:
  assumes ok: "table_ok P m" and small: "unat (capacity m) \<le> 2 ^ 24"
    and res: "index_or_insert d P key m = Some (Inr (index, m'))"
  shows "4 * unat (m_size m') \<le> 3 * unat (capacity m')"
proof -
  note r = index_or_insert_result [OF ok res]
  obtain k where k: "k < 32" "capacity m = 2 ^ k" "unat (capacity m) = 2 ^ k"
    using ok is_pow2D unfolding table_ok_def by blast
  have lt: "unat (m_size m) < unat (capacity m)" using ok unfolding table_ok_def by simp
  show ?thesis
  proof (cases "needs_grow m")
    case True
    then show ?thesis using r(2,5) lt by simp
  next
    case False
    have s: "unat (m_size m + 1) = unat (m_size m) + 1" using lt by (rule unat_succ_32)
    have "unat (m_size m + 1) < 2 ^ k" using k(3) False by (rule not_needs_grow_free)
    then have "unat (m_size m + 1) < 2 ^ 24" using small k(3) by simp
    then have "4 * unat (m_size m + 1) \<le> 3 * 2 ^ k"
      using k(3) False by (intro not_needs_grow_exact)
    then show ?thesis using r(2,5) False s k(3) by simp
  qed
qed

text \<open>
  Claim C4, for the maps that own a table. With a power-of-two initial size that fits in
  \<open>uint32_t\<close>, every map reached from a constructed one by \<open>operator[]\<close>, assignments,
  \<open>find\<close>, \<open>clear\<close>, and by taking over such a map's table in a move, has a capacity that
  is a power of two and at least the initial size; and when the capacity is at most
  \<open>2 ^ 24\<close> (where the \<open>float\<close> test is exact), every insertion that \<open>operator[]\<close> completes
  leaves \<open>occupied_count / capacity \<le> 0.75\<close>.
\<close>

theorem reachable_capacity_and_load:
  assumes "InitialSize P = 2 ^ j" and "j < 32" and "reachable P m"
  shows "is_pow2 (capacity m) \<and>
         unat (InitialSize P) \<le> unat (capacity m) \<and>
         (\<forall>d key index m'. unat (capacity m) \<le> 2 ^ 24 \<longrightarrow>
            index_or_insert d P key m = Some (Inr (index, m')) \<longrightarrow>
            4 * unat (m_size m') \<le> 3 * unat (capacity m'))"
proof -
  have ok: "table_ok P m" and ge: "2 ^ j \<le> unat (capacity m)"
    using reachable_table_ok [OF assms] by simp_all
  have "unat (InitialSize P) = 2 ^ j"
    unfolding assms(1) using assms(2) by (intro unat_pow2_64) simp
  then show ?thesis
    using ok ge insertion_load [OF ok] unfolding table_ok_def by auto
qed

theorem reachable_capacity_and_load_witness:
  "is_pow2 (capacity (construct_map int_params)) \<and>
   unat (InitialSize int_params) \<le> unat (capacity (construct_map int_params)) \<and>
   (\<exists>index m'. index_or_insert (Suc 0) int_params 8 (construct_map int_params)
                  = Some (Inr (index, m')) \<and>
       4 * unat (m_size m') \<le> 3 * unat (capacity m'))"
proof -
  have h1: "InitialSize int_params = 2 ^ 3" by (simp add: int_params_def)
  have h2: "(3::nat) < 32" by simp
  have h3: "reachable int_params (construct_map int_params)" by (rule reach_construct)
  have ok: "table_ok int_params (construct_map int_params)"
    using h1 h2 by (rule table_ok_construct)
  have cap: "unat (capacity (construct_map int_params)) = 8"
    using table_ok_construct(3) [OF h1 h2] by simp
  have c24: "unat (capacity (construct_map int_params)) \<le> 2 ^ 24" unfolding cap by simp
  have c30: "unat (capacity (construct_map int_params)) \<le> 2 ^ 30" unfolding cap by simp
  show ?thesis
  proof (rule index_or_insert_ok [OF ok c30, of 0 8])
    fix r m1
    assume r: "index_or_insert (Suc 0) int_params 8 (construct_map int_params) = Some (Inr (r, m1))"
    show ?thesis
      using reachable_capacity_and_load [OF h1 h2 h3] r c24 by blast
  qed
qed

text \<open>
  The claim as stated fails: a move is one of the operations, and it leaves its source
  with capacity 0, which is no power of two and below the initial size 8.
\<close>

theorem moved_from_capacity_counterexample:
  "capacity (snd (move_from (construct_map int_params))) = 0 \<and>
   \<not> is_pow2 (capacity (snd (move_from (construct_map int_params)))) \<and>
   unat (capacity (snd (move_from (construct_map int_params)))) < unat (InitialSize int_params)"
  by code_simp

section \<open>The scenario of ten integer keys\<close>

lemma bind_res_assoc:
  "bind_res (bind_res r f) g = bind_res r (\<lambda>x. bind_res (f x) g)"
proof (cases r)
  case None
  then show ?thesis by simp
next
  case (Some a)
  then show ?thesis by (cases a) simp_all
qed

lemma bind_res_return: "bind_res r (\<lambda>x. Some (Inr x)) = r"
proof (cases r)
  case None
  then show ?thesis by simp
next
  case (Some a)
  then show ?thesis by (cases a) simp_all
qed

lemma assign_all_snoc:
  "assign_all d P (xs @ [kv]) m
     = bind_res (assign_all d P xs m) (subscript_assign d P (fst kv) (snd kv))"
proof (induction xs arbitrary: m)
  case Nil
  have "assign_all d P [] = (\<lambda>m. Some (Inr m))" by (rule ext) simp
  then show ?case by (simp add: bind_res_return del: index_or_insert.simps)
next
  case (Cons x xs)
  show ?case
    by (simp add: Cons.IH [abs_def] bind_res_assoc del: index_or_insert.simps)
qed

lemma needs_grow_small:
  assumes n: "unat (m_size m) = n" and c: "unat (capacity m) = c"
    and range: "n + 1 < 2 ^ 24" "0 < c" "c < 2 ^ 24"
  shows "needs_grow m \<longleftrightarrow> 25165825 * c < 33554432 * (n + 1)"
proof -
  have "unat (m_size m + 1) = (n + 1) mod 2 ^ 32" using n by (simp add: unat_word_ariths)
  then have s: "unat (m_size m + 1) = n + 1" using range(1) by simp
  have a: "float_of_u32 (m_size m + 1) = n + 1"
    using float_of_u32_exact [of "m_size m + 1"] s range(1) by simp
  have b: "float_of_u32 (capacity m) = c"
    using float_of_u32_exact [of "capacity m"] c range(3) by simp
  show ?thesis
    unfolding needs_grow_def float_div_gt_max_load_def a b using range(2) by simp
qed

lemma scenario_step:
  assumes prev: "assign_all (Suc 0) P xs m0 = Some (Inr m)" "table_ok P m"
      "unat (m_size m) = n" "unat (capacity m) = c" "content m = S"
    and new: "k \<notin> fst ` S" and range: "n + 1 < 2 ^ 24" "0 < c" "c < 2 ^ 24"
  shows "\<exists>m'. assign_all (Suc 0) P (xs @ [(k, v)]) m0 = Some (Inr m') \<and> table_ok P m' \<and>
           unat (m_size m') = n + 1 \<and>
           unat (capacity m') = (if 25165825 * c < 33554432 * (n + 1) then 2 * c else c) \<and>
           content m' = insert (k, v) S"
proof -
  have g: "needs_grow m \<longleftrightarrow> 25165825 * c < 33554432 * (n + 1)"
    using prev(3,4) range by (rule needs_grow_small)
  have b: "unat (capacity m) \<le> 2 ^ 30" using prev(4) range(3) by simp
  show ?thesis
  proof (rule subscript_assign_ok [OF prev(2) b, of 0 k v])
    fix m2
    assume m2: "subscript_assign (Suc 0) P k v m = Some (Inr m2)" "table_ok P m2"
      "unat (capacity m2) = (if needs_grow m then 2 * unat (capacity m) else unat (capacity m))"
      "content m2 = {kv \<in> content m. fst kv \<noteq> k} \<union> {(k, v)}"
      "unat (m_size m2) = unat (m_size m) + (if k \<in> fst ` content m then 0 else 1)"
    have "{kv \<in> S. fst kv \<noteq> k} = S" using new by force
    then have c2: "content m2 = insert (k, v) S" using m2(4) prev(5) by simp
    have a: "assign_all (Suc 0) P (xs @ [(k, v)]) m0 = Some (Inr m2)"
      unfolding assign_all_snoc using prev(1) m2(1) by (simp del: index_or_insert.simps)
    show ?thesis
      using a m2(2,3,5) c2 g prev(3,4,5) new by (intro exI [of _ m2]) simp
  qed
qed

lemma capacity_eq_of_unat:
  "unat (capacity m) = n \<Longrightarrow> n < 2 ^ 32 \<Longrightarrow> capacity m = of_nat n"
proof -
  assume a: "unat (capacity m) = n" "n < 2 ^ 32"
  have "unat (of_nat n :: 32 word) = n" using a(2) by (simp add: unat_of_nat)
  then show ?thesis using a(1) by (simp only: word_unat_eq_iff)
qed

text \<open>
  Claim C6. With the initial capacity 8, the assignments \<open>m[0] = v0, \<dots>, m[9] = v9\<close> to a
  fresh \<open>map<int, int>\<close> all return. The list gives, for \<open>n = 0, \<dots>, 10\<close>, the capacity
  after the first \<open>n\<close> assignments and whether the growth test fires on the next call of
  \<open>operator[]\<close>: the capacity is 8 up to the sixth insertion, the test fires exactly once,
  at the seventh insertion (\<open>7 / 8 > 0.75\<close>), and the capacity is 16 from then on. At the end
  \<open>size()\<close> is 10 and \<open>find\<close> returns for each key the value assigned to it.
\<close>

theorem ten_keys_grow_once:
  "map (\<lambda>n. map_option (map_sum id (\<lambda>m. (capacity m, needs_grow m)))
            (assign_all (Suc 0) int_params (take n [(0, v0), (1, v1), (2, v2), (3, v3), (4, v4), (5, v5), (6, v6), (7, v7), (8, v8), (9, v9)])
               (construct_map int_params))) [0..<11]
     = [Some (Inr (8, False)), Some (Inr (8, False)), Some (Inr (8, False)), Some (Inr (8, False)), Some (Inr (8, False)), Some (Inr (8, False)), Some (Inr (8, True)), Some (Inr (16, False)), Some (Inr (16, False)), Some (Inr (16, False)), Some (Inr (16, False))] \<and>
   map_option (map_sum id (\<lambda>m. (size_map m, map (find_value int_params m) [0, 1, 2, 3, 4, 5, 6, 7, 8, 9])))
      (assign_all (Suc 0) int_params [(0, v0), (1, v1), (2, v2), (3, v3), (4, v4), (5, v5), (6, v6), (7, v7), (8, v8), (9, v9)] (construct_map int_params))
     = Some (Inr (10, [Some (Inr (Some v0)), Some (Inr (Some v1)), Some (Inr (Some v2)), Some (Inr (Some v3)), Some (Inr (Some v4)), Some (Inr (Some v5)), Some (Inr (Some v6)), Some (Inr (Some v7)), Some (Inr (Some v8)), Some (Inr (Some v9))]))"
proof -
  define m0 :: "(32 word, 32 word) hash_map" where "m0 = construct_map int_params"
  have h1: "InitialSize int_params = 2 ^ 3" by (simp add: int_params_def)
  have h2: "(3::nat) < 32" by simp
  have A0: "assign_all (Suc 0) int_params [] m0 = Some (Inr m0)" "table_ok int_params m0"
    "unat (m_size m0) = 0" "unat (capacity m0) = 8" "content m0 = {}"
    unfolding m0_def using table_ok_construct [OF h1 h2] by simp_all
  obtain m1 where A1: "assign_all (Suc 0) int_params [(0, v0)] m0 = Some (Inr m1)"
    "table_ok int_params m1" "unat (m_size m1) = 1" "unat (capacity m1) = 8"
    "content m1 = {(0, v0)}"
    using scenario_step [OF A0, of 0 v0] by (auto simp del: assign_all.simps)
  obtain m2 where A2: "assign_all (Suc 0) int_params [(0, v0), (1, v1)] m0 = Some (Inr m2)"
    "table_ok int_params m2" "unat (m_size m2) = 2" "unat (capacity m2) = 8"
    "content m2 = {(1, v1), (0, v0)}"
    using scenario_step [OF A1, of 1 v1] by (auto simp del: assign_all.simps)
  obtain m3 where A3: "assign_all (Suc 0) int_params [(0, v0), (1, v1), (2, v2)] m0 = Some (Inr m3)"
    "table_ok int_params m3" "unat (m_size m3) = 3" "unat (capacity m3) = 8"
    "content m3 = {(2, v2), (1, v1), (0, v0)}"
    using scenario_step [OF A2, of 2 v2] by (auto simp del: assign_all.simps)
  obtain m4 where A4: "assign_all (Suc 0) int_params [(0, v0), (1, v1), (2, v2), (3, v3)] m0 = Some (Inr m4)"
    "table_ok int_params m4" "unat (m_size m4) = 4" "unat (capacity m4) = 8"
    "content m4 = {(3, v3), (2, v2), (1, v1), (0, v0)}"
    using scenario_step [OF A3, of 3 v3] by (auto simp del: assign_all.simps)
  obtain m5 where A5: "assign_all (Suc 0) int_params [(0, v0), (1, v1), (2, v2), (3, v3), (4, v4)] m0 = Some (Inr m5)"
    "table_ok int_params m5" "unat (m_size m5) = 5" "unat (capacity m5) = 8"
    "content m5 = {(4, v4), (3, v3), (2, v2), (1, v1), (0, v0)}"
    using scenario_step [OF A4, of 4 v4] by (auto simp del: assign_all.simps)
  obtain m6 where A6: "assign_all (Suc 0) int_params [(0, v0), (1, v1), (2, v2), (3, v3), (4, v4), (5, v5)] m0 = Some (Inr m6)"
    "table_ok int_params m6" "unat (m_size m6) = 6" "unat (capacity m6) = 8"
    "content m6 = {(5, v5), (4, v4), (3, v3), (2, v2), (1, v1), (0, v0)}"
    using scenario_step [OF A5, of 5 v5] by (auto simp del: assign_all.simps)
  obtain m7 where A7: "assign_all (Suc 0) int_params [(0, v0), (1, v1), (2, v2), (3, v3), (4, v4), (5, v5), (6, v6)] m0 = Some (Inr m7)"
    "table_ok int_params m7" "unat (m_size m7) = 7" "unat (capacity m7) = 16"
    "content m7 = {(6, v6), (5, v5), (4, v4), (3, v3), (2, v2), (1, v1), (0, v0)}"
    using scenario_step [OF A6, of 6 v6] by (auto simp del: assign_all.simps)
  obtain m8 where A8: "assign_all (Suc 0) int_params [(0, v0), (1, v1), (2, v2), (3, v3), (4, v4), (5, v5), (6, v6), (7, v7)] m0 = Some (Inr m8)"
    "table_ok int_params m8" "unat (m_size m8) = 8" "unat (capacity m8) = 16"
    "content m8 = {(7, v7), (6, v6), (5, v5), (4, v4), (3, v3), (2, v2), (1, v1), (0, v0)}"
    using scenario_step [OF A7, of 7 v7] by (auto simp del: assign_all.simps)
  obtain m9 where A9: "assign_all (Suc 0) int_params [(0, v0), (1, v1), (2, v2), (3, v3), (4, v4), (5, v5), (6, v6), (7, v7), (8, v8)] m0 = Some (Inr m9)"
    "table_ok int_params m9" "unat (m_size m9) = 9" "unat (capacity m9) = 16"
    "content m9 = {(8, v8), (7, v7), (6, v6), (5, v5), (4, v4), (3, v3), (2, v2), (1, v1), (0, v0)}"
    using scenario_step [OF A8, of 8 v8] by (auto simp del: assign_all.simps)
  obtain m10 where A10: "assign_all (Suc 0) int_params [(0, v0), (1, v1), (2, v2), (3, v3), (4, v4), (5, v5), (6, v6), (7, v7), (8, v8), (9, v9)] m0 = Some (Inr m10)"
    "table_ok int_params m10" "unat (m_size m10) = 10" "unat (capacity m10) = 16"
    "content m10 = {(9, v9), (8, v8), (7, v7), (6, v6), (5, v5), (4, v4), (3, v3), (2, v2), (1, v1), (0, v0)}"
    using scenario_step [OF A9, of 9 v9] by (auto simp del: assign_all.simps)
  have G0: "needs_grow m0 = False"
    using needs_grow_small [OF A0(3,4)] by simp
  have C0: "capacity m0 = 8"
    using capacity_eq_of_unat [OF A0(4)] by simp
  have G1: "needs_grow m1 = False"
    using needs_grow_small [OF A1(3,4)] by simp
  have C1: "capacity m1 = 8"
    using capacity_eq_of_unat [OF A1(4)] by simp
  have G2: "needs_grow m2 = False"
    using needs_grow_small [OF A2(3,4)] by simp
  have C2: "capacity m2 = 8"
    using capacity_eq_of_unat [OF A2(4)] by simp
  have G3: "needs_grow m3 = False"
    using needs_grow_small [OF A3(3,4)] by simp
  have C3: "capacity m3 = 8"
    using capacity_eq_of_unat [OF A3(4)] by simp
  have G4: "needs_grow m4 = False"
    using needs_grow_small [OF A4(3,4)] by simp
  have C4: "capacity m4 = 8"
    using capacity_eq_of_unat [OF A4(4)] by simp
  have G5: "needs_grow m5 = False"
    using needs_grow_small [OF A5(3,4)] by simp
  have C5: "capacity m5 = 8"
    using capacity_eq_of_unat [OF A5(4)] by simp
  have G6: "needs_grow m6 = True"
    using needs_grow_small [OF A6(3,4)] by simp
  have C6: "capacity m6 = 8"
    using capacity_eq_of_unat [OF A6(4)] by simp
  have G7: "needs_grow m7 = False"
    using needs_grow_small [OF A7(3,4)] by simp
  have C7: "capacity m7 = 16"
    using capacity_eq_of_unat [OF A7(4)] by simp
  have G8: "needs_grow m8 = False"
    using needs_grow_small [OF A8(3,4)] by simp
  have C8: "capacity m8 = 16"
    using capacity_eq_of_unat [OF A8(4)] by simp
  have G9: "needs_grow m9 = False"
    using needs_grow_small [OF A9(3,4)] by simp
  have C9: "capacity m9 = 16"
    using capacity_eq_of_unat [OF A9(4)] by simp
  have G10: "needs_grow m10 = False"
    using needs_grow_small [OF A10(3,4)] by simp
  have C10: "capacity m10 = 16"
    using capacity_eq_of_unat [OF A10(4)] by simp
  have ok: "table_ok int_params m10" by (rule A10(2))
  have s: "size_map m10 = 10"
  proof -
    have "unat (size_map m10) = 10" using A10(3) by (simp only: unat_size_map)
    then have "unat (size_map m10) = unat (10 :: 64 word)" by simp
    then show ?thesis by (simp only: word_unat_eq_iff)
  qed
  have F0: "find_value int_params m10 0 = Some (Inr (Some v0))"
    using ok by (rule find_value_present) (simp add: A10(5))
  have F1: "find_value int_params m10 1 = Some (Inr (Some v1))"
    using ok by (rule find_value_present) (simp add: A10(5))
  have F2: "find_value int_params m10 2 = Some (Inr (Some v2))"
    using ok by (rule find_value_present) (simp add: A10(5))
  have F3: "find_value int_params m10 3 = Some (Inr (Some v3))"
    using ok by (rule find_value_present) (simp add: A10(5))
  have F4: "find_value int_params m10 4 = Some (Inr (Some v4))"
    using ok by (rule find_value_present) (simp add: A10(5))
  have F5: "find_value int_params m10 5 = Some (Inr (Some v5))"
    using ok by (rule find_value_present) (simp add: A10(5))
  have F6: "find_value int_params m10 6 = Some (Inr (Some v6))"
    using ok by (rule find_value_present) (simp add: A10(5))
  have F7: "find_value int_params m10 7 = Some (Inr (Some v7))"
    using ok by (rule find_value_present) (simp add: A10(5))
  have F8: "find_value int_params m10 8 = Some (Inr (Some v8))"
    using ok by (rule find_value_present) (simp add: A10(5))
  have F9: "find_value int_params m10 9 = Some (Inr (Some v9))"
    using ok by (rule find_value_present) (simp add: A10(5))
  have u: "[0..<11] = [0, 1, 2, 3, 4, 5, 6, 7, 8, 9, 10]" by (simp add: upt_rec)
  have p1: "map (\<lambda>n. map_option (map_sum id (\<lambda>m. (capacity m, needs_grow m)))
            (assign_all (Suc 0) int_params (take n [(0, v0), (1, v1), (2, v2), (3, v3), (4, v4), (5, v5), (6, v6), (7, v7), (8, v8), (9, v9)]) m0)) [0..<11]
     = [Some (Inr (8, False)), Some (Inr (8, False)), Some (Inr (8, False)), Some (Inr (8, False)), Some (Inr (8, False)), Some (Inr (8, False)), Some (Inr (8, True)), Some (Inr (16, False)), Some (Inr (16, False)), Some (Inr (16, False)), Some (Inr (16, False))]"
    unfolding u
    using A0(1) A1(1) A2(1) A3(1) A4(1) A5(1) A6(1) A7(1) A8(1) A9(1) A10(1)
      G0 G1 G2 G3 G4 G5 G6 G7 G8 G9 G10
      C0 C1 C2 C3 C4 C5 C6 C7 C8 C9 C10
    by (simp del: assign_all.simps)
  have p2: "map_option (map_sum id (\<lambda>m. (size_map m, map (find_value int_params m) [0, 1, 2, 3, 4, 5, 6, 7, 8, 9])))
      (assign_all (Suc 0) int_params [(0, v0), (1, v1), (2, v2), (3, v3), (4, v4), (5, v5), (6, v6), (7, v7), (8, v8), (9, v9)] m0)
     = Some (Inr (10, [Some (Inr (Some v0)), Some (Inr (Some v1)), Some (Inr (Some v2)), Some (Inr (Some v3)), Some (Inr (Some v4)), Some (Inr (Some v5)), Some (Inr (Some v6)), Some (Inr (Some v7)), Some (Inr (Some v8)), Some (Inr (Some v9))]))"
    using A10(1) s F0 F1 F2 F3 F4 F5 F6 F7 F8 F9 by (simp del: assign_all.simps)
  show ?thesis using p1 p2 unfolding m0_def by (rule conjI)
qed

section \<open>What a returning insertion has done\<close>

lemma index_or_insert_decompose:
  assumes ok: "table_ok P m" and res: "index_or_insert d P key m = Some (Inr (r, m1))"
  obtains m' where "place_key P key m' = Some (Inr (r, m1))" "table_ok P m'"
    "content m' = content m" "m_size m' = m_size m"
    "unat (m_size m') + 1 < unat (capacity m')"
    "needs_grow m \<Longrightarrow> unat (capacity m) \<le> 2 ^ 30"
proof -
  obtain k where k: "k < 32" "capacity m = 2 ^ k" "unat (capacity m) = 2 ^ k"
    using ok is_pow2D unfolding table_ok_def by blast
  have lt: "unat (m_size m) < unat (capacity m)" using ok unfolding table_ok_def by simp
  show thesis
  proof (cases "needs_grow m")
    case False
    have "unat (m_size m + 1) = unat (m_size m) + 1" using lt by (rule unat_succ_32)
    then have room: "unat (m_size m) + 1 < unat (capacity m)"
      using not_needs_grow_free [OF k(3) False] k(3) by simp
    have p: "place_key P key m = Some (Inr (r, m1))"
      using res False unfolding index_or_insert_eq by simp
    show ?thesis using that [OF p ok _ _ room] False by simp
  next
    case True
    have "bind_res (grow d P m) (place_key P key) = Some (Inr (r, m1))"
      using res True unfolding index_or_insert_eq by simp
    then obtain m' where g: "grow d P m = Some (Inr m')"
      and p: "place_key P key m' = Some (Inr (r, m1))"
      by (rule bind_res_eq_Inr)
    obtain d' where d: "d = Suc d'" using g by (cases d) simp_all
    have small: "unat (capacity m) \<le> 2 ^ 30"
    proof (rule ccontr)
      assume big: "\<not> unat (capacity m) \<le> 2 ^ 30"
      have "\<not> k \<le> 30"
      proof
        assume "k \<le> 30"
        then have "(2::nat) ^ k \<le> 2 ^ 30" by (intro power_increasing) simp_all
        then show False using big k(3) by simp
      qed
      then have "k = 31" using k(1) by simp
      then have "unat (capacity m) = 2 ^ 31" using k(3) by simp
      then show False using grow_overflow [OF ok _ True, of d m'] g by simp
    qed
    show ?thesis
    proof (rule grow_ok [OF ok small, of d'])
      fix m''
      assume a: "grow (Suc d') P m = Some (Inr m'')" "table_ok P m''"
        "unat (capacity m'') = 2 * unat (capacity m)" "content m'' = content m"
        "m_size m'' = m_size m"
      have e: "m'' = m'" using a(1) g d by simp
      have room: "unat (m_size m') + 1 < unat (capacity m')"
        using lt a(3,5) unfolding e by simp
      show ?thesis using that [OF p _ _ _ room small] a(2,4,5) unfolding e by simp
    qed
  qed
qed

lemma subscript_assign_exact:
  assumes ok: "table_ok P m" and res: "subscript_assign d P key val m = Some (Inr m2)"
  shows "content m2 = {kv \<in> content m. fst kv \<noteq> key} \<union> {(key, val)}"
    and "unat (m_size m2) = unat (m_size m) + (if key \<in> fst ` content m then 0 else 1)"
    and "needs_grow m \<Longrightarrow> unat (capacity m) \<le> 2 ^ 30"
proof -
  have "bind_res (index_or_insert d P key m)
      (\<lambda>(index, m'). Some (Inr (assign_second index val m'))) = Some (Inr m2)"
    using res unfolding subscript_assign_def .
  then obtain x where x: "index_or_insert d P key m = Some (Inr x)"
    "(case x of (index, m') \<Rightarrow> Some (Inr (assign_second index val m')))
       = (Some (Inr m2) :: ('a, 'b) hash_map result)"
    by (rule bind_res_eq_Inr)
  obtain r m1 where rm: "x = (r, m1)" by (cases x)
  have m2: "m2 = assign_second r val m1" using x(2) unfolding rm by simp
  have a: "index_or_insert d P key m = Some (Inr (r, m1))" using x(1) rm by simp
  have "content m2 = {kv \<in> content m. fst kv \<noteq> key} \<union> {(key, val)} \<and>
        unat (m_size m2) = unat (m_size m) + (if key \<in> fst ` content m then 0 else 1) \<and>
        (needs_grow m \<longrightarrow> unat (capacity m) \<le> 2 ^ 30)"
  proof (rule index_or_insert_decompose [OF ok a])
    fix m'
    assume m': "place_key P key m' = Some (Inr (r, m1))" "table_ok P m'"
      "content m' = content m" "m_size m' = m_size m"
      "unat (m_size m') + 1 < unat (capacity m')"
      "needs_grow m \<Longrightarrow> unat (capacity m) \<le> 2 ^ 30"
    show ?thesis
    proof (rule place_then_assign [OF m'(2,5), of key val])
      fix r' m1'
      assume b: "place_key P key m' = Some (Inr (r', m1'))"
        "content (assign_second r' val m1') = {kv \<in> content m'. fst kv \<noteq> key} \<union> {(key, val)}"
        "unat (m_size (assign_second r' val m1'))
           = unat (m_size m') + (if key \<in> fst ` content m' then 0 else 1)"
      have "r' = r" "m1' = m1" using b(1) m'(1) by simp_all
      then show ?thesis using b(2,3) m'(3,4,6) unfolding m2 by simp
    qed
  qed
  then show "content m2 = {kv \<in> content m. fst kv \<noteq> key} \<union> {(key, val)}"
    and "unat (m_size m2) = unat (m_size m) + (if key \<in> fst ` content m then 0 else 1)"
    and "needs_grow m \<Longrightarrow> unat (capacity m) \<le> 2 ^ 30"
    by simp_all
qed

lemma assign_all_exact:
  assumes "table_ok P m" and "content m = Map.graph f" and "unat (m_size m) = card (dom f)"
    and "assign_all d P kvs m = Some (Inr m')"
  shows "table_ok P m' \<and> content m' = Map.graph (f ++ map_of (rev kvs)) \<and>
         unat (m_size m') = card (dom f \<union> fst ` set kvs)"
  using assms
proof (induction kvs arbitrary: m f)
  case Nil
  then show ?case by simp
next
  case (Cons kv kvs)
  obtain k v where kv: "kv = (k, v)" by (cases kv)
  have fin: "finite (dom f)"
    using finite_content [of m] unfolding Cons.prems(2) finite_graph_iff_finite_dom .
  have "bind_res (subscript_assign d P k v m) (assign_all d P kvs) = Some (Inr m')"
    using Cons.prems(4) unfolding kv by (simp del: index_or_insert.simps)
  then obtain m2 where m2: "subscript_assign d P k v m = Some (Inr m2)"
    and rest: "assign_all d P kvs m2 = Some (Inr m')"
    by (rule bind_res_eq_Inr)
  have ok2: "table_ok P m2" using Cons.prems(1) m2 by (rule subscript_assign_result(1))
  note e = subscript_assign_exact(1,2) [OF Cons.prems(1) m2]
  have c2: "content m2 = Map.graph (f(k \<mapsto> v))"
    unfolding e(1) Cons.prems(2) graph_map_upd graph_fun_upd_None by auto
  have "unat (m_size m2) = card (insert k (dom f))"
    unfolding e(2) Cons.prems(2,3) fst_graph_eq_dom using fin
    by (simp add: card_insert_if)
  then have s2: "unat (m_size m2) = card (dom (f(k \<mapsto> v)))" by simp
  have A: "f(k \<mapsto> v) ++ map_of (rev kvs) = f ++ map_of (rev (kv # kvs))"
    unfolding kv by (simp add: map_add_upd_left)
  have B: "dom (f(k \<mapsto> v)) \<union> fst ` set kvs = dom f \<union> fst ` set (kv # kvs)"
    unfolding kv by auto
  show ?case using Cons.IH [OF ok2 c2 s2 rest] unfolding A B .
qed

lemma assign_all_reachable:
  assumes "reachable P m" and "assign_all d P kvs m = Some (Inr m')"
  shows "reachable P m'"
  using assms
proof (induction kvs arbitrary: m)
  case Nil
  then show ?case by simp
next
  case (Cons kv kvs)
  have "bind_res (subscript_assign d P (fst kv) (snd kv) m) (assign_all d P kvs) = Some (Inr m')"
    using Cons.prems(2) by (simp del: index_or_insert.simps)
  then obtain m2 where m2: "subscript_assign d P (fst kv) (snd kv) m = Some (Inr m2)"
    and rest: "assign_all d P kvs m2 = Some (Inr m')"
    by (rule bind_res_eq_Inr)
  have "reachable P m2" using Cons.prems(1) m2 by (rule reach_assign)
  then show ?case using rest by (rule Cons.IH)
qed

lemma assign_all_append:
  "assign_all d P (xs @ ys) m = bind_res (assign_all d P xs m) (assign_all d P ys)"
proof (induction xs arbitrary: m)
  case Nil
  show ?case by simp
next
  case (Cons x xs)
  show ?case
    by (simp add: Cons.IH [abs_def] bind_res_assoc del: index_or_insert.simps)
qed

section \<open>The first growth that leaves the range of the capacity field\<close>

lemma grow_loop_overflow_exact:
  assumes cap: "capacity m * 2 = 0" and i: "i \<le> length old"
  shows "foldl (rehash_step (Suc d) P old) (Some (Inr (grown_empty P m))) [0..<i]
         = (if \<exists>t<i. state (old ! t) = 1 then Some (Inl OutOfBounds)
            else Some (Inr (grown_empty P m)))"
  using i
proof (induction i)
  case 0
  show ?case by simp
next
  case (Suc i)
  have il: "i < length old" using Suc.prems by simp
  have ge: "entries (grown_empty P m) = []" "capacity (grown_empty P m) = 0"
    "m_size (grown_empty P m) = 0"
    using cap by (simp_all add: grown_empty_def new_entries_def)
  have fail: "index_or_insert (Suc d) P key (grown_empty P m) = Some (Inl OutOfBounds)" for key
    using ge by (rule index_or_insert_no_table)
  have IH: "foldl (rehash_step (Suc d) P old) (Some (Inr (grown_empty P m))) [0..<i]
         = (if \<exists>t<i. state (old ! t) = 1 then Some (Inl OutOfBounds)
            else Some (Inr (grown_empty P m)))"
    using Suc.IH il by simp
  have step: "foldl (rehash_step (Suc d) P old) (Some (Inr (grown_empty P m))) [0..<Suc i]
         = rehash_step (Suc d) P old
             (foldl (rehash_step (Suc d) P old) (Some (Inr (grown_empty P m))) [0..<i]) i"
    by simp
  show ?case
  proof (cases "\<exists>t<i. state (old ! t) = 1")
    case True
    then have e: "\<exists>t<Suc i. state (old ! t) = 1" using less_Suc_eq by auto
    have "foldl (rehash_step (Suc d) P old) (Some (Inr (grown_empty P m))) [0..<i]
          = Some (Inl OutOfBounds)"
      using IH True by simp
    then have "foldl (rehash_step (Suc d) P old) (Some (Inr (grown_empty P m))) [0..<Suc i]
          = Some (Inl OutOfBounds)"
      unfolding step by (simp add: rehash_step_def)
    then show ?thesis using e by simp
  next
    case False
    have base: "foldl (rehash_step (Suc d) P old) (Some (Inr (grown_empty P m))) [0..<i]
          = Some (Inr (grown_empty P m))"
      using IH False by simp
    show ?thesis
    proof (cases "state (old ! i) = 1")
      case occ: True
      then have e: "\<exists>t<Suc i. state (old ! t) = 1" by auto
      have "rehash_step (Suc d) P old (Some (Inr (grown_empty P m))) i = Some (Inl OutOfBounds)"
        using occ il fail by (simp add: rehash_step_def del: index_or_insert.simps)
      then have "foldl (rehash_step (Suc d) P old) (Some (Inr (grown_empty P m))) [0..<Suc i]
          = Some (Inl OutOfBounds)"
        unfolding step base .
      then show ?thesis using e by simp
    next
      case free: False
      have ne: "\<not> (\<exists>t<Suc i. state (old ! t) = 1)"
        using False free by (auto simp: less_Suc_eq)
      have "rehash_step (Suc d) P old (Some (Inr (grown_empty P m))) i
            = Some (Inr (grown_empty P m))"
        using free il by (simp add: rehash_step_def del: index_or_insert.simps)
      then have "foldl (rehash_step (Suc d) P old) (Some (Inr (grown_empty P m))) [0..<Suc i]
          = Some (Inr (grown_empty P m))"
        unfolding step base .
      then show ?thesis using ne by simp
    qed
  qed
qed

lemma needs_grow_occupied:
  assumes ok: "table_ok P m" and cap: "unat (capacity m) = 2 ^ 31" and g: "needs_grow m"
  shows "\<exists>t<length (entries m). state (entries m ! t) = 1"
proof -
  have "unat (m_size m) \<noteq> 0"
  proof
    assume z: "unat (m_size m) = 0"
    then have "m_size m = 0" by (simp add: unat_eq_0)
    then have "4 * unat (m_size m + 1) \<le> 3 * 2 ^ 31" by simp
    then have "\<not> needs_grow m" using cap by (intro not_needs_grow_load)
    then show False using g by simp
  qed
  then have "filter (\<lambda>e. state e = 1) (entries m) \<noteq> []"
    using ok unfolding table_ok_def by auto
  then obtain e where "e \<in> set (entries m)" "state e = 1"
    by (metis (mono_tags, lifting) filter_False)
  then show ?thesis by (metis in_set_conv_nth)
qed

lemma capacity_doubling_wraps:
  assumes "unat (capacity m) = 2 ^ 31"
  shows "capacity m * 2 = 0"
proof -
  have "unat (capacity m * 2) = (unat (capacity m) * 2) mod 2 ^ 32" by (simp add: unat_word_ariths)
  then have "unat (capacity m * 2) = 0" unfolding assms by simp
  then show ?thesis by (simp add: unat_eq_0)
qed

lemma grow_overflow_exact:
  assumes ok: "table_ok P m" and cap: "unat (capacity m) = 2 ^ 31" and g: "needs_grow m"
  shows "grow (Suc (Suc d)) P m = Some (Inl OutOfBounds)"
proof -
  have len: "length (entries m) = unat (capacity m)" using ok unfolding table_ok_def by simp
  have "grow (Suc (Suc d)) P m
        = foldl (rehash_step (Suc d) P (entries m)) (Some (Inr (grown_empty P m)))
            [0..<length (entries m)]"
    unfolding grow_eq len ..
  also have "\<dots> = Some (Inl OutOfBounds)"
    using grow_loop_overflow_exact [OF capacity_doubling_wraps [OF cap] order_refl, where old = "entries m" and d = d and P = P]
      needs_grow_occupied [OF ok cap g] by simp
  finally show ?thesis .
qed

lemma subscript_assign_overflow:
  assumes ok: "table_ok P m" and cap: "unat (capacity m) = 2 ^ 31" and g: "needs_grow m"
  shows "subscript_assign (Suc (Suc d)) P key val m = Some (Inl OutOfBounds)"
  unfolding subscript_assign_def index_or_insert_eq
  using g grow_overflow_exact [OF ok cap g] by simp

section \<open>More keys than the capacity field can count\<close>

lemma card_insertion_loop_keys:
  assumes "n \<le> 2 ^ 32"
  shows "card (fst ` set (insertion_loop n)) = n"
proof -
  have "fst ` set (insertion_loop n) = (of_nat :: nat \<Rightarrow> 32 word) ` {0..<n}"
    unfolding insertion_loop_def by (simp add: image_image)
  moreover have "inj_on (of_nat :: nat \<Rightarrow> 32 word) {0..<n}"
  proof (rule inj_onI)
    fix x y assume x: "x \<in> {0..<n}" and y: "y \<in> {0..<n}"
      and e: "(of_nat x :: 32 word) = of_nat y"
    have xn: "x < n" and yn: "y < n" using x y by simp_all
    have xb: "x < 2 ^ 32" using xn assms by (rule less_le_trans)
    have yb: "y < 2 ^ 32" using yn assms by (rule less_le_trans)
    have ux: "unat (of_nat x :: 32 word) = x mod 2 ^ 32" by (simp add: unat_of_nat)
    have uy: "unat (of_nat y :: 32 word) = y mod 2 ^ 32" by (simp add: unat_of_nat)
    have "x mod 2 ^ 32 = y mod 2 ^ 32" using e ux uy by (simp only:)
    then have "x = y" using xb yb by (simp only: mod_less)
    then show "x = y" .
  qed
  ultimately show ?thesis by (simp add: card_image)
qed

lemma insertion_loop_Suc:
  "insertion_loop (Suc n) = insertion_loop n @ [(of_nat n, of_nat n)]"
  by (simp add: insertion_loop_def)

lemma insertion_loop_split:
  assumes "n < N"
  shows "\<exists>rest. insertion_loop N = insertion_loop (Suc n) @ rest"
proof -
  have "[0..<N] = [0..<Suc n] @ [Suc n..<N]"
    using assms by (metis Suc_leI le0 upt_add_eq_append le_add_diff_inverse)
  then have "insertion_loop N = insertion_loop (Suc n) @ map (\<lambda>i. (of_nat i, of_nat i)) [Suc n..<N]"
    unfolding insertion_loop_def by (simp only: map_append)
  then show ?thesis ..
qed

lemma int_params_fresh:
  "table_ok int_params (construct_map int_params)"
  "content (construct_map int_params) = Map.graph (Map.empty :: 32 word \<rightharpoonup> 32 word)"
  "unat (m_size (construct_map int_params)) = card (dom (Map.empty :: 32 word \<rightharpoonup> 32 word))"
proof -
  have h1: "InitialSize int_params = 2 ^ 3" by (simp add: int_params_def)
  have h2: "(3::nat) < 32" by simp
  show "table_ok int_params (construct_map int_params)"
    "content (construct_map int_params) = Map.graph (Map.empty :: 32 word \<rightharpoonup> 32 word)"
    "unat (m_size (construct_map int_params)) = card (dom (Map.empty :: 32 word \<rightharpoonup> 32 word))"
    using table_ok_construct [OF h1 h2] by simp_all
qed

lemma too_many_keys:
  "assign_all d int_params (insertion_loop (2 ^ 31)) (construct_map int_params) \<noteq> Some (Inr m)"
proof
  assume a: "assign_all d int_params (insertion_loop (2 ^ 31)) (construct_map int_params)
             = Some (Inr m)"
  have r: "table_ok int_params m"
    "unat (m_size m) = card (dom (Map.empty :: 32 word \<rightharpoonup> 32 word)
                             \<union> fst ` set (insertion_loop (2 ^ 31)))"
    using assign_all_exact [OF int_params_fresh a] by simp_all
  have "unat (m_size m) = 2 ^ 31"
    using r(2) card_insertion_loop_keys [of "2 ^ 31"] by simp
  moreover obtain k where k: "k < 32" "unat (capacity m) = 2 ^ k"
    using r(1) is_pow2D unfolding table_ok_def by blast
  moreover have "(2::nat) ^ k \<le> 2 ^ 31" using k(1) by (intro power_increasing) simp_all
  moreover have "unat (m_size m) < unat (capacity m)" using r(1) unfolding table_ok_def by simp
  ultimately show False by simp
qed

lemma first_overflow:
  obtains n m where "n < 2 ^ 31"
    "assign_all (Suc (Suc 0)) int_params (insertion_loop n) (construct_map int_params) = Some (Inr m)"
    "reachable int_params m" "table_ok int_params m"
    "needs_grow m" "unat (capacity m) = 2 ^ 31"
proof -
  define Q where "Q n \<longleftrightarrow> (\<exists>m. assign_all (Suc (Suc 0)) int_params (insertion_loop n)
      (construct_map int_params) = Some (Inr m))" for n
  have Q0: "Q 0" unfolding Q_def insertion_loop_def by simp
  have notQ: "\<not> Q (2 ^ 31)" unfolding Q_def using too_many_keys by blast
  have "\<exists>n<2 ^ 31. Q n \<and> \<not> Q (Suc n)"
  proof (rule ccontr)
    assume c: "\<not> (\<exists>n<2 ^ 31. Q n \<and> \<not> Q (Suc n))"
    have "n \<le> 2 ^ 31 \<Longrightarrow> Q n" for n
    proof (induction n)
      case 0
      show ?case by (rule Q0)
    next
      case (Suc n)
      then show ?case using c by auto
    qed
    then show False using notQ by simp
  qed
  then obtain n where n: "n < 2 ^ 31" "Q n" "\<not> Q (Suc n)" by blast
  obtain m where m: "assign_all (Suc (Suc 0)) int_params (insertion_loop n)
      (construct_map int_params) = Some (Inr m)"
    using n(2) unfolding Q_def by blast
  have ok: "table_ok int_params m"
    using assign_all_exact [OF int_params_fresh m] by simp
  have re: "reachable int_params m"
    using reach_construct m by (rule assign_all_reachable)
  have fail: "subscript_assign (Suc (Suc 0)) int_params (of_nat n) (of_nat n) m \<noteq> Some (Inr m')"
    for m'
  proof
    assume "subscript_assign (Suc (Suc 0)) int_params (of_nat n) (of_nat n) m = Some (Inr m')"
    then have "assign_all (Suc (Suc 0)) int_params (insertion_loop (Suc n))
        (construct_map int_params) = Some (Inr m')"
      unfolding insertion_loop_Suc assign_all_snoc using m by simp
    then show False using n(3) unfolding Q_def by blast
  qed
  have g: "needs_grow m \<and> \<not> unat (capacity m) \<le> 2 ^ 30"
  proof (rule ccontr)
    assume "\<not> (needs_grow m \<and> \<not> unat (capacity m) \<le> 2 ^ 30)"
    then have b: "needs_grow m \<Longrightarrow> unat (capacity m) \<le> 2 ^ 30" by blast
    show False
    proof (rule subscript_assign_ok [OF ok b, of "Suc 0" "of_nat n" "of_nat n"])
      fix m2
      assume "subscript_assign (Suc (Suc 0)) int_params (of_nat n) (of_nat n) m = Some (Inr m2)"
      then show False using fail by simp
    qed
  qed
  obtain k where k: "k < 32" "unat (capacity m) = 2 ^ k"
    using ok is_pow2D unfolding table_ok_def by blast
  have "\<not> k \<le> 30"
  proof
    assume "k \<le> 30"
    then have "(2::nat) ^ k \<le> 2 ^ 30" by (intro power_increasing) simp_all
    then show False using g k(2) by simp
  qed
  then have "k = 31" using k(1) by simp
  then have cap: "unat (capacity m) = 2 ^ 31" using k(2) by simp
  show thesis using that [OF n(1) m re ok _ cap] g by simp
qed

section \<open>Insertions beyond the range of the capacity field\<close>

text \<open>
  With the default initial size 8, the loop \<open>for (i = 0; i < 2 ^ 31; ++i) m[i] = i\<close> on a
  fresh \<open>shared::map<int, int>\<close> inserts unique keys only, and it does not end with a map
  of \<open>2 ^ 31\<close> entries: some assignment finds the table at capacity \<open>2 ^ 31\<close> and over its
  load factor, the doubling wraps the \<open>uint32_t\<close> capacity to 0, and the first re-insertion
  reads outside the empty new table.
\<close>

theorem insertion_loop_overflow_counterexample:
  "assign_all (Suc (Suc 0)) int_params (insertion_loop (2 ^ 31)) (construct_map int_params)
   = Some (Inl OutOfBounds)"
proof -
  obtain n m where n: "n < 2 ^ 31"
    and m: "assign_all (Suc (Suc 0)) int_params (insertion_loop n) (construct_map int_params)
            = Some (Inr m)"
    and ok: "table_ok int_params m" and g: "needs_grow m" and cap: "unat (capacity m) = 2 ^ 31"
    using first_overflow by metis
  obtain rest where rest: "insertion_loop (2 ^ 31) = insertion_loop (Suc n) @ rest"
    using insertion_loop_split [OF n] by blast
  have "assign_all (Suc (Suc 0)) int_params (insertion_loop (Suc n)) (construct_map int_params)
        = Some (Inl OutOfBounds)"
    unfolding insertion_loop_Suc assign_all_snoc m
    using subscript_assign_overflow [OF ok cap g, of 0] by simp
  then show ?thesis unfolding rest assign_all_append by simp
qed

text \<open>
  A growth event that loses every entry: a map reachable through the public operations of
  \<open>shared::map<int, int>\<close>, well formed and not empty, whose next insertion calls \<open>grow\<close>,
  and \<open>grow\<close> returns no map: the doubled capacity is 0 in \<open>uint32_t\<close> and the first
  re-insertion reads outside the new table.
\<close>

theorem grow_overflow_counterexample:
  "\<exists>m. reachable int_params m \<and> table_ok int_params m \<and> content m \<noteq> {} \<and> needs_grow m
       \<and> grow (Suc (Suc 0)) int_params m = Some (Inl OutOfBounds)
       \<and> (\<forall>d m'. grow d int_params m \<noteq> Some (Inr m'))"
proof -
  obtain n :: nat and m where nb: "n < 2 ^ 31" and re: "reachable int_params m"
    and ok: "table_ok int_params m" and g: "needs_grow m" and cap: "unat (capacity m) = 2 ^ 31"
    using first_overflow by metis
  obtain t where t: "t < length (entries m)" "state (entries m ! t) = 1"
    using needs_grow_occupied [OF ok cap g] by blast
  have "entries m ! t \<in> {e \<in> set (entries m). state e = 1}" using t by simp
  then have ne: "content m \<noteq> {}" unfolding content_def by blast
  have ex: "grow (Suc (Suc 0)) int_params m = Some (Inl OutOfBounds)"
    using ok cap g by (rule grow_overflow_exact)
  have "grow d int_params m \<noteq> Some (Inr m')" for d m'
    using ok cap g by (rule grow_overflow)
  then show ?thesis using re ok ne g ex by blast
qed

end
